theory Spec2Isabelle
  imports Main
begin

section \<open>JavaScript strings\<close>

text \<open>
  A JavaScript string is a sequence of UTF-16 code units. The regular expressions of
  \<^verbatim>\<open>utils.ts\<close> carry no \<^verbatim>\<open>u\<close> flag, so they too work on code units.
  A code unit is a natural number here; \<open>ustr\<close> spells an ASCII literal.
\<close>

type_synonym ustring = "nat list"

definition ustr :: "string \<Rightarrow> ustring" where
  "ustr s = map of_char s"

text \<open>
  The class \<^verbatim>\<open>\s\<close> of a regular expression, which is also what
  \<^verbatim>\<open>String.prototype.trim\<close> removes: WhiteSpace and LineTerminator of ECMAScript.
\<close>

definition isWhiteSpace :: "nat \<Rightarrow> bool" where
  "isWhiteSpace c \<longleftrightarrow>
     c \<in> set [0x09, 0x0A, 0x0B, 0x0C, 0x0D, 0x20, 0xA0, 0x1680, 0x2028, 0x2029,
                0x202F, 0x205F, 0x3000, 0xFEFF]
     \<or> (0x2000 \<le> c \<and> c \<le> 0x200A)"

text \<open>The class \<^verbatim>\<open>\d\<close>.\<close>

definition isDigit :: "nat \<Rightarrow> bool" where
  "isDigit c \<longleftrightarrow> 0x30 \<le> c \<and> c \<le> 0x39"

text \<open>\<^verbatim>\<open>String.prototype.trim\<close>.\<close>

definition trim :: "ustring \<Rightarrow> ustring" where
  "trim s = rev (dropWhile isWhiteSpace (rev (dropWhile isWhiteSpace s)))"

section \<open>Global replacement by a regular expression\<close>

text \<open>
  \<^verbatim>\<open>str.replace(/[cls]/g, r)\<close>: the scan visits every position; a code unit of the
  class is a match of length one and is replaced, any other is copied. The replacement
  may use the match (\<^verbatim>\<open>$&\<close>).
\<close>

fun replace_each :: "(nat \<Rightarrow> bool) \<Rightarrow> (nat \<Rightarrow> ustring) \<Rightarrow> ustring \<Rightarrow> ustring" where
  "replace_each cls r [] = []"
| "replace_each cls r (c # cs) =
     (if cls c then r c @ replace_each cls r cs else c # replace_each cls r cs)"

text \<open>
  \<^verbatim>\<open>str.replace(/[cls]{n,}/g, r)\<close> for \<open>n \<ge> 1\<close> (\<^verbatim>\<open>+\<close> is \<open>n = 1\<close>): the
  quantifier is greedy, so a match that starts at a position takes the whole run of class
  members from there, and there is a match only when that run has at least \<open>n\<close>
  members. After a match the scan goes on behind it; without one it copies the code unit
  and moves one position on.
\<close>

function replace_runs :: "(nat \<Rightarrow> bool) \<Rightarrow> nat \<Rightarrow> ustring \<Rightarrow> ustring \<Rightarrow> ustring" where
  "replace_runs cls n r [] = []"
| "replace_runs cls n r (c # cs) =
     (if cls c \<and> n \<le> Suc (length (takeWhile cls cs))
      then r @ replace_runs cls n r (dropWhile cls cs)
      else c # replace_runs cls n r cs)"
  by pat_completeness auto
termination
  by (relation "measure (\<lambda>(cls, n, r, s). length s)")
     (auto simp: less_Suc_eq_le length_dropWhile_le)

section \<open>slugify\<close>

definition hyphen :: nat where
  "hyphen = 0x2D"

definition isHyphen :: "nat \<Rightarrow> bool" where
  "isHyphen c \<longleftrightarrow> c = hyphen"

text \<open>\<^verbatim>\<open>const rControl\<close>: the class from U+0000 to U+001F.\<close>

definition rControl :: "nat \<Rightarrow> bool" where
  "rControl c \<longleftrightarrow> c \<le> 0x1F"

text \<open>
  \<^verbatim>\<open>const rSpecial = /[\s~`!@#$%^&*()\-_+=[\]{}|\\;:"'...<>,.?/]+/g\<close>, where the
  dots stand for the four curly quotes U+201C, U+201D, U+2018 and U+2019. The backslash
  (0x5C), the double quote (0x22) and the apostrophe (0x27) are written by number.
\<close>

definition rSpecial :: "nat \<Rightarrow> bool" where
  "rSpecial c \<longleftrightarrow>
     isWhiteSpace c
     \<or> c \<in> set (ustr ''~`!@#$%^&*()-_+=[]{}|;:<>,.?/''
                 @ [0x5C, 0x22, 0x27, 0x201C, 0x201D, 0x2018, 0x2019])"

text \<open>\<^verbatim>\<open>const rCombining\<close>: the class from U+0300 to U+036F.\<close>

definition rCombining :: "nat \<Rightarrow> bool" where
  "rCombining c \<longleftrightarrow> 0x300 \<le> c \<and> c \<le> 0x36F"

text \<open>
  \<^verbatim>\<open>.replace(/^-+|-+$/g, '')\<close>. The first alternative can match at position 0
  only, where it takes the leading run of hyphens. The second matches at a hyphen from
  which hyphens run to the end of the string, and nothing is left to scan behind it.
  The flag says whether the scan is still at position 0.
\<close>

function strip_edges :: "bool \<Rightarrow> ustring \<Rightarrow> ustring" where
  "strip_edges at_start [] = []"
| "strip_edges at_start (c # cs) =
     (if at_start \<and> c = hyphen then strip_edges False (dropWhile isHyphen cs)
      else if c = hyphen \<and> list_all isHyphen cs then []
      else c # strip_edges False cs)"
  by pat_completeness auto
termination
  by (relation "measure (\<lambda>(at_start, s). length s)")
     (auto simp: less_Suc_eq_le length_dropWhile_le)

text \<open>\<^verbatim>\<open>.replace(/^(\d)/, '_$1')\<close>: not global, one match at most, at position 0.\<close>

definition escape_leading_digit :: "ustring \<Rightarrow> ustring" where
  "escape_leading_digit s =
     (case s of [] \<Rightarrow> [] | c # cs \<Rightarrow> if isDigit c then 0x5F # c # cs else c # cs)"

text \<open>
  \<^verbatim>\<open>String.prototype.normalize('NFKD')\<close> and \<^verbatim>\<open>toLowerCase\<close> belong to the
  JavaScript runtime and rest on the tables of the Unicode Character Database. They are
  parameters of the model, and what is proved of \<open>slugify\<close> in general holds for
  every pair of functions in their place.
\<close>

definition slugify ::
  "(ustring \<Rightarrow> ustring) \<Rightarrow> (ustring \<Rightarrow> ustring) \<Rightarrow> ustring \<Rightarrow> ustring" where
  "slugify normalize_NFKD toLowerCase str =
     toLowerCase
       (escape_leading_digit
         (strip_edges True
           (replace_runs isHyphen 2 [hyphen]
             (replace_runs rSpecial 1 [hyphen]
               (replace_each rControl (\<lambda>_. [])
                 (replace_each rCombining (\<lambda>_. [])
                   (normalize_NFKD str)))))))"

subsection \<open>The runtime's tables on Latin-1\<close>

text \<open>
  Modelled from the spec: "Unicode-normalize to decomposed form" names the runtime's
  NFKD, whose table is not part of the repository. \<open>decomposition_latin1\<close> is that
  table for the code points below U+0100 (the full compatibility decompositions of the
  Unicode Character Database). \<open>normalize_NFKD_latin1\<close> decomposes those and copies
  every other code unit, which is NFKD on code points that have no decomposition, such
  as U+2014 EM DASH. No decomposition of the table puts two combining marks side by
  side, so there is nothing to reorder.
\<close>

definition decomposition_latin1 :: "(nat \<times> ustring) list" where
  "decomposition_latin1 =
    [(0xA0, [0x20]), (0xA8, [0x20, 0x308]), (0xAA, [0x61]), (0xAF, [0x20, 0x304]),
     (0xB2, [0x32]), (0xB3, [0x33]), (0xB4, [0x20, 0x301]), (0xB5, [0x3BC]),
     (0xB8, [0x20, 0x327]), (0xB9, [0x31]), (0xBA, [0x6F]),
     (0xBC, [0x31, 0x2044, 0x34]), (0xBD, [0x31, 0x2044, 0x32]),
     (0xBE, [0x33, 0x2044, 0x34]),
     (0xC0, [0x41, 0x300]), (0xC1, [0x41, 0x301]), (0xC2, [0x41, 0x302]),
     (0xC3, [0x41, 0x303]), (0xC4, [0x41, 0x308]), (0xC5, [0x41, 0x30A]),
     (0xC7, [0x43, 0x327]),
     (0xC8, [0x45, 0x300]), (0xC9, [0x45, 0x301]), (0xCA, [0x45, 0x302]),
     (0xCB, [0x45, 0x308]),
     (0xCC, [0x49, 0x300]), (0xCD, [0x49, 0x301]), (0xCE, [0x49, 0x302]),
     (0xCF, [0x49, 0x308]),
     (0xD1, [0x4E, 0x303]),
     (0xD2, [0x4F, 0x300]), (0xD3, [0x4F, 0x301]), (0xD4, [0x4F, 0x302]),
     (0xD5, [0x4F, 0x303]), (0xD6, [0x4F, 0x308]),
     (0xD9, [0x55, 0x300]), (0xDA, [0x55, 0x301]), (0xDB, [0x55, 0x302]),
     (0xDC, [0x55, 0x308]), (0xDD, [0x59, 0x301]),
     (0xE0, [0x61, 0x300]), (0xE1, [0x61, 0x301]), (0xE2, [0x61, 0x302]),
     (0xE3, [0x61, 0x303]), (0xE4, [0x61, 0x308]), (0xE5, [0x61, 0x30A]),
     (0xE7, [0x63, 0x327]),
     (0xE8, [0x65, 0x300]), (0xE9, [0x65, 0x301]), (0xEA, [0x65, 0x302]),
     (0xEB, [0x65, 0x308]),
     (0xEC, [0x69, 0x300]), (0xED, [0x69, 0x301]), (0xEE, [0x69, 0x302]),
     (0xEF, [0x69, 0x308]),
     (0xF1, [0x6E, 0x303]),
     (0xF2, [0x6F, 0x300]), (0xF3, [0x6F, 0x301]), (0xF4, [0x6F, 0x302]),
     (0xF5, [0x6F, 0x303]), (0xF6, [0x6F, 0x308]),
     (0xF9, [0x75, 0x300]), (0xFA, [0x75, 0x301]), (0xFB, [0x75, 0x302]),
     (0xFC, [0x75, 0x308]), (0xFD, [0x79, 0x301]), (0xFF, [0x79, 0x308])]"

definition normalize_NFKD_latin1 :: "ustring \<Rightarrow> ustring" where
  "normalize_NFKD_latin1 s =
     concat (map (\<lambda>c. case map_of decomposition_latin1 c of
                         None \<Rightarrow> [c] | Some d \<Rightarrow> d) s)"

text \<open>
  Modelled from the spec: "Lowercase the entire result" names the runtime's
  \<^verbatim>\<open>toLowerCase\<close>. Below U+0100 it moves A to Z and U+00C0 to U+00DE, without
  U+00D7, up by 0x20; \<open>toLowerCase_latin1\<close> copies every other code unit, which is
  \<^verbatim>\<open>toLowerCase\<close> on code points that have no lowercase mapping, such as U+2014.
\<close>

definition toLowerCase_latin1 :: "ustring \<Rightarrow> ustring" where
  "toLowerCase_latin1 s =
     map (\<lambda>c. if (0x41 \<le> c \<and> c \<le> 0x5A) \<or> (0xC0 \<le> c \<and> c \<le> 0xDE \<and> c \<noteq> 0xD7)
              then c + 0x20 else c) s"

subsection \<open>The steps in the words of the specification\<close>

text \<open>
  "Replace every maximal run of [the class] with a single hyphen", said position by
  position: a code unit outside the class stays; a class member that begins a run (it is
  the first code unit, or its predecessor is outside the class) becomes a hyphen; a class
  member that continues a run disappears. \<open>hyphenate_from\<close> takes, as \<open>b\<close>, whether
  the code unit before the string is in the class.
\<close>

definition hyphenate_from :: "(nat \<Rightarrow> bool) \<Rightarrow> bool \<Rightarrow> ustring \<Rightarrow> ustring" where
  "hyphenate_from cls b s =
     [if cls c then hyphen else c. (before, c) \<leftarrow> zip (b # map cls s) s,
        \<not> (before \<and> cls c)]"

text \<open>At the start of the string nothing comes before.\<close>

definition hyphenate_runs :: "(nat \<Rightarrow> bool) \<Rightarrow> ustring \<Rightarrow> ustring" where
  "hyphenate_runs cls s = hyphenate_from cls False s"

text \<open>
  The eight steps, for any class in step 4. Step 5 collapses runs of two or more hyphens;
  a run of one hyphen is its own replacement, so this is \<open>hyphenate_runs\<close> for the
  class that holds the hyphen alone.
\<close>

definition slugify_steps ::
  "(nat \<Rightarrow> bool) \<Rightarrow> (ustring \<Rightarrow> ustring) \<Rightarrow> (ustring \<Rightarrow> ustring) \<Rightarrow> ustring \<Rightarrow> ustring" where
  "slugify_steps special normalize_NFKD toLowerCase str =
     (let s1 = normalize_NFKD str;
          s2 = filter (\<lambda>c. \<not> (0x300 \<le> c \<and> c \<le> 0x36F)) s1;
          s3 = filter (\<lambda>c. \<not> c \<le> 0x1F) s2;
          s4 = hyphenate_runs special s3;
          s5 = hyphenate_runs (\<lambda>c. c = hyphen) s4;
          s6 = rev (dropWhile (\<lambda>c. c = hyphen) (rev (dropWhile (\<lambda>c. c = hyphen) s5)));
          s7 = (if s6 \<noteq> [] \<and> isDigit (hd s6) then 0x5F # s6 else s6)
      in toLowerCase s7)"

text \<open>
  The class of step 4 as the specification lists it: whitespace, or one of
  \<^verbatim>\<open>~!@#$%^&*()-_+=[]{}|\;:"'"\<close>, U+2018, U+2019, \<^verbatim>\<open><>,.?/\<close>.
\<close>

definition special_listed :: "nat \<Rightarrow> bool" where
  "special_listed c \<longleftrightarrow>
     isWhiteSpace c
     \<or> c \<in> set (ustr ''~!@#$%^&*()-_+=[]{}|;:<>,.?/''
                 @ [0x5C, 0x22, 0x27, 0x2018, 0x2019])"

definition slugify_spec ::
  "(ustring \<Rightarrow> ustring) \<Rightarrow> (ustring \<Rightarrow> ustring) \<Rightarrow> ustring \<Rightarrow> ustring" where
  "slugify_spec = slugify_steps special_listed"

section \<open>Tokens\<close>

text \<open>
  The fields of a \<^verbatim>\<open>markdown-it\<close> token that \<^verbatim>\<open>utils.ts\<close> reads.
  \<^verbatim>\<open>attrs\<close> and \<^verbatim>\<open>children\<close> may be \<^verbatim>\<open>null\<close>; \<^verbatim>\<open>meta\<close> may be
  absent, and of its content only the truth of \<^verbatim>\<open>isPermalinkSymbol\<close> is read.
\<close>

record meta =
  isPermalinkSymbol :: bool

datatype Token = Token
  (token_type: ustring)
  (token_tag: ustring)
  (token_attrs: "(ustring \<times> ustring) list option")
  (token_children: "Token list option")
  (token_content: ustring)
  (token_meta: "meta option")

text \<open>
  \<^verbatim>\<open>Token.attrGet\<close> of \<^verbatim>\<open>markdown-it\<close>: the value of the first attribute of
  that name, \<^verbatim>\<open>null\<close> when there is none or when \<^verbatim>\<open>attrs\<close> is \<^verbatim>\<open>null\<close>.
\<close>

definition attrGet :: "Token \<Rightarrow> ustring \<Rightarrow> ustring option" where
  "attrGet token name =
     (case token_attrs token of None \<Rightarrow> None | Some as \<Rightarrow> map_of as name)"

text \<open>
  \<^verbatim>\<open>Number.parseInt(s, 10)\<close>: leading white space, an optional sign, then the
  longest run of decimal digits; \<^verbatim>\<open>NaN\<close>, here \<open>None\<close>, when there is no digit.
  The value is the exact integer, as JavaScript's is up to \<open>2^53\<close>.
\<close>

definition parseInt :: "ustring \<Rightarrow> int option" where
  "parseInt s =
     (let t = dropWhile isWhiteSpace s;
          negative = (t \<noteq> [] \<and> hd t = 0x2D);
          u = (if t \<noteq> [] \<and> (hd t = 0x2D \<or> hd t = 0x2B) then tl t else t);
          ds = takeWhile isDigit u;
          n = int (foldl (\<lambda>n d. 10 * n + (d - 0x30)) 0 ds)
      in if ds = [] then None else Some (if negative then - n else n))"

section \<open>resolveTitleFromToken\<close>

text \<open>
  \<^verbatim>\<open>htmlEscape\<close> is imported from \<^verbatim>\<open>@vitebook/core/node\<close> and is a parameter
  of the model.
\<close>

definition resolveTitleFromToken ::
  "(ustring \<Rightarrow> ustring) \<Rightarrow> Token \<Rightarrow> bool \<Rightarrow> bool \<Rightarrow> ustring" where
  "resolveTitleFromToken htmlEscape token allowHtml escapeText =
     (let children = (case token_children token of None \<Rightarrow> [] | Some cs \<Rightarrow> cs);
          titleTokenTypes =
            [ustr ''text'', ustr ''emoji'', ustr ''code_inline'']
            @ (if allowHtml then [ustr ''html_inline''] else []);
          titleTokens =
            filter (\<lambda>item. token_type item \<in> set titleTokenTypes
                        \<and> \<not> (case token_meta item of None \<Rightarrow> False
                              | Some m \<Rightarrow> isPermalinkSymbol m))
              children
      in trim
           (foldl (\<lambda>result item.
                     if escapeText \<and> (token_type item = ustr ''code_inline''
                                      \<or> token_type item = ustr ''text'')
                     then result @ htmlEscape (token_content item)
                     else result @ token_content item)
              [] titleTokens))"

text \<open>
  Modelled from the spec: \<^verbatim>\<open>htmlEscape\<close> of \<^verbatim>\<open>@vitebook/core\<close> is not among
  the sources. The specification has it escape "at minimum the characters"
  \<^verbatim>\<open>&\<close>, \<^verbatim>\<open><\<close>, \<^verbatim>\<open>>\<close> and the double quote, and shows \<^verbatim>\<open>&lt;\<close> and
  \<^verbatim>\<open>&gt;\<close> in its example; the four get their HTML entities.
\<close>

definition htmlEscape_spec :: "ustring \<Rightarrow> ustring" where
  "htmlEscape_spec s =
     concat (map (\<lambda>c. if c = 0x26 then ustr ''&amp;''
                       else if c = 0x3C then ustr ''&lt;''
                       else if c = 0x3E then ustr ''&gt;''
                       else if c = 0x22 then ustr ''&quot;''
                       else [c]) s)"

section \<open>resolveHeadersFromTokens\<close>

text \<open>
  A \<^verbatim>\<open>MarkdownHeader\<close> is a mutable object: \<^verbatim>\<open>push\<close> appends to the
  \<^verbatim>\<open>children\<close> of a header that \<^verbatim>\<open>stack\<close> and the tree both hold. The model
  keeps the objects in a store, a list in which an object's address is its index, and
  arrays of objects are lists of addresses. An object literal takes the next free
  address.
\<close>

type_synonym ref = nat

record MarkdownHeader =
  level :: int
  title :: ustring
  slug :: ustring
  children :: "ref list"

text \<open>
  The variables of one call: the store, the arrays \<^verbatim>\<open>headers\<close> and \<^verbatim>\<open>stack\<close>,
  and, to make calls of the \<^verbatim>\<open>slugify\<close> callback visible, the arguments it has been
  called with, in order.
\<close>

record build =
  heap :: "MarkdownHeader list"
  headers :: "ref list"
  stack :: "ref list"
  slugify_calls :: "ustring list"

definition init :: build where
  "init = \<lparr>heap = [], headers = [], stack = [], slugify_calls = []\<rparr>"

text \<open>
  \<^verbatim>\<open>while (stack.length !== 0 && header.level <= stack[0].level) stack.shift()\<close>
\<close>

fun shift_while :: "MarkdownHeader list \<Rightarrow> int \<Rightarrow> ref list \<Rightarrow> ref list" where
  "shift_while hp l [] = []"
| "shift_while hp l (front # rest) =
     (if l \<le> level (hp ! front) then shift_while hp l rest else front # rest)"

text \<open>
  \<^verbatim>\<open>push\<close>, called with a fresh object literal, which goes to the end of the store.
\<close>

definition push :: "MarkdownHeader \<Rightarrow> build \<Rightarrow> build" where
  "push header st =
     (let new = length (heap st);
          stack1 = shift_while (heap st) (level header) (stack st)
      in case stack1 of
           [] \<Rightarrow>
             st\<lparr>heap := heap st @ [header],
                headers := headers st @ [new],
                stack := [new]\<rparr>
         | front # _ \<Rightarrow>
             st\<lparr>heap := (heap st)
                          [front := (heap st ! front)
                                    \<lparr>children := children (heap st ! front) @ [new]\<rparr>]
                        @ [header],
                stack := new # stack1\<rparr>)"

text \<open>\<^verbatim>\<open>tokens[i]\<close>, which is \<^verbatim>\<open>undefined\<close> out of range.\<close>

definition at_index :: "'a list \<Rightarrow> nat \<Rightarrow> 'a option" where
  "at_index xs i = (if i < length xs then Some (xs ! i) else None)"

text \<open>
  The callback of \<^verbatim>\<open>tokens.forEach\<close> at index \<open>idx\<close>. The options are the
  destructured parameters of the source; \<open>levels\<close> is its \<^verbatim>\<open>level\<close>, an array of
  integers, so \<^verbatim>\<open>NaN\<close> is never included in it. \<^verbatim>\<open>format\<close> is optional.
\<close>

definition visit ::
  "(ustring \<Rightarrow> ustring) \<Rightarrow> Token list \<Rightarrow> int list \<Rightarrow> bool \<Rightarrow> bool \<Rightarrow> (ustring \<Rightarrow> ustring) \<Rightarrow>
   (ustring \<Rightarrow> ustring) option \<Rightarrow> nat \<Rightarrow> build \<Rightarrow> build" where
  "visit htmlEscape tokens levels allowHtml escapeText slugify_cb format idx st =
     (case at_index tokens idx of
        None \<Rightarrow> st
      | Some token \<Rightarrow>
          if token_type token \<noteq> ustr ''heading_open'' then st
          else
            (case parseInt (drop 1 (token_tag token)) of
               None \<Rightarrow> st
             | Some headerLevel \<Rightarrow>
                 if headerLevel \<notin> set levels then st
                 else
                   (case at_index tokens (idx + 1) of
                      None \<Rightarrow> st
                    | Some nextToken \<Rightarrow>
                        let title1 = resolveTitleFromToken htmlEscape nextToken allowHtml escapeText;
                            (slug1, st1) =
                              (case attrGet token (ustr ''id'') of
                                 Some v \<Rightarrow> (v, st)
                               | None \<Rightarrow>
                                   (slugify_cb title1,
                                    st\<lparr>slugify_calls := slugify_calls st @ [title1]\<rparr>))
                        in push \<lparr>level = headerLevel,
                                 title = (case format of Some f \<Rightarrow> f title1 | None \<Rightarrow> title1),
                                 slug = slug1,
                                 children = []\<rparr> st1)))"

text \<open>The loop over all indices, from the empty arrays.\<close>

definition run ::
  "(ustring \<Rightarrow> ustring) \<Rightarrow> Token list \<Rightarrow> int list \<Rightarrow> bool \<Rightarrow> bool \<Rightarrow> (ustring \<Rightarrow> ustring) \<Rightarrow>
   (ustring \<Rightarrow> ustring) option \<Rightarrow> build" where
  "run htmlEscape tokens levels allowHtml escapeText slugify_cb format =
     foldl (\<lambda>st idx. visit htmlEscape tokens levels allowHtml escapeText slugify_cb format idx st)
       init [0..<length tokens]"

text \<open>
  The value a caller sees: the array \<^verbatim>\<open>headers\<close> with every address replaced by the
  object it names, down through \<^verbatim>\<open>children\<close>. \<^verbatim>\<open>push\<close> links a header only
  below one allocated before it, so a child's address is above its parent's; following
  only such addresses makes the reading total, and \<open>run_children_above\<close> shows that it
  leaves no child out.
\<close>

datatype header_tree = Header
  (header_level: int)
  (header_title: ustring)
  (header_slug: ustring)
  (header_children: "header_tree list")

function header_at :: "MarkdownHeader list \<Rightarrow> ref \<Rightarrow> header_tree" where
  "header_at hp a =
     Header (level (hp ! a)) (title (hp ! a)) (slug (hp ! a))
       (map (header_at hp) (filter (\<lambda>c. a < c \<and> c < length hp) (children (hp ! a))))"
  by pat_completeness auto
termination
  by (relation "measure (\<lambda>(hp, a). length hp - a)") auto

definition resolveHeadersFromTokens ::
  "(ustring \<Rightarrow> ustring) \<Rightarrow> Token list \<Rightarrow> int list \<Rightarrow> bool \<Rightarrow> bool \<Rightarrow> (ustring \<Rightarrow> ustring) \<Rightarrow>
   (ustring \<Rightarrow> ustring) option \<Rightarrow> header_tree list" where
  "resolveHeadersFromTokens htmlEscape tokens levels allowHtml escapeText slugify_cb format =
     (let st = run htmlEscape tokens levels allowHtml escapeText slugify_cb format
      in map (header_at (heap st)) (headers st))"

text \<open>All headers of a tree, the root first.\<close>

fun flatten :: "header_tree \<Rightarrow> header_tree list" where
  "flatten (Header l t s cs) = Header l t s cs # concat (map flatten cs)"

section \<open>preventViteConstantsReplacement\<close>

text \<open>The class \<^verbatim>\<open>\w\<close>.\<close>

definition isWordChar :: "nat \<Rightarrow> bool" where
  "isWordChar c \<longleftrightarrow>
     (0x41 \<le> c \<and> c \<le> 0x5A) \<or> (0x61 \<le> c \<and> c \<le> 0x7A) \<or> isDigit c \<or> c = 0x5F"

text \<open>
  The assertion \<^verbatim>\<open>\b\<close> between the code unit before a position and the one at it,
  either of which is missing at an end of the string: exactly one of the two is a word
  character.
\<close>

definition word_boundary :: "nat option \<Rightarrow> nat option \<Rightarrow> bool" where
  "word_boundary before next =
     ((case before of None \<Rightarrow> False | Some c \<Rightarrow> isWordChar c)
      \<noteq> (case next of None \<Rightarrow> False | Some c \<Rightarrow> isWordChar c))"

text \<open>
  An alternation of literal strings tried at a position: the alternatives are tried from
  left to right and the first that is a prefix of the rest of the input is the match.
\<close>

fun first_match :: "ustring list \<Rightarrow> ustring \<Rightarrow> ustring option" where
  "first_match [] s = None"
| "first_match (k # ks) s = (if take (length k) s = k then Some k else first_match ks s)"

text \<open>
  \<^verbatim>\<open>str.replace(/\b(k1|k2|...)/g, r)\<close> for literal alternatives, \<open>r\<close> a function of
  the match; \<open>before\<close> is the code unit before the position of the scan. At a word
  boundary where an alternative matches, the replacement is emitted and the scan goes on
  behind the match. Behind an empty match it copies one code unit and goes on from the
  next position, and it still tries a match at the end of the string.
\<close>

fun replace_matches ::
  "ustring list \<Rightarrow> (ustring \<Rightarrow> ustring) \<Rightarrow> nat option \<Rightarrow> ustring \<Rightarrow> ustring" where
  "replace_matches alts r before [] =
     (if word_boundary before None
      then (case first_match alts [] of None \<Rightarrow> [] | Some m \<Rightarrow> r m)
      else [])"
| "replace_matches alts r before (c # cs) =
     (case (if word_boundary before (Some c) then first_match alts (c # cs) else None) of
        None \<Rightarrow> c # replace_matches alts r (Some c) cs
      | Some m \<Rightarrow>
          if m = [] then r m @ c # replace_matches alts r (Some c) cs
          else r m @ replace_matches alts r (Some (last m)) (drop (length m - 1) cs))"

text \<open>
  \<^verbatim>\<open>key.replace(/[-[\]/{}()*+?.\\^$|]/g, '\\$&')\<close>: a backslash before each code unit
  of the class.
\<close>

definition rEscaped :: "nat \<Rightarrow> bool" where
  "rEscaped c \<longleftrightarrow> c \<in> set (ustr ''-[]/{}()*+?.^$|'' @ [0x5C])"

definition escape_key :: "ustring \<Rightarrow> ustring" where
  "escape_key key = replace_each rEscaped (\<lambda>c. [0x5C, c]) key"

text \<open>\<^verbatim>\<open>Array.prototype.join\<close>\<close>

fun join :: "ustring \<Rightarrow> ustring list \<Rightarrow> ustring" where
  "join sep [] = []"
| "join sep [x] = x"
| "join sep (x # y # ys) = x @ sep @ join sep (y # ys)"

text \<open>
  \<^verbatim>\<open>new RegExp(pattern, 'g')\<close> for the patterns that the function builds: the text
  \<^verbatim>\<open>\b(\<close>, alternatives separated by \<^verbatim>\<open>|\<close>, and \<^verbatim>\<open>)\<close>. In an alternative a
  backslash before a syntax character, a slash or a hyphen is that character, and a code
  unit that is no syntax character is itself. \<open>SyntaxCharacter\<close> is the class of that
  name in ECMAScript. Any other pattern is outside what the model reads, and is the
  error \<open>NotAnAlternation\<close>.
\<close>

datatype error = NotAnAlternation

definition SyntaxCharacter :: "nat \<Rightarrow> bool" where
  "SyntaxCharacter c \<longleftrightarrow> c \<in> set (ustr ''^$.*+?()[]{}|'' @ [0x5C])"

fun parse_alternatives :: "ustring \<Rightarrow> ustring \<Rightarrow> ustring list option" where
  "parse_alternatives cur [] = None"
| "parse_alternatives cur [c] = (if c = 0x29 then Some [cur] else None)"
| "parse_alternatives cur (c # d # ds) =
     (if c = 0x5C then
        (if SyntaxCharacter d \<or> d = 0x2F \<or> d = 0x2D
         then parse_alternatives (cur @ [d]) ds else None)
      else if c = 0x7C then map_option ((#) cur) (parse_alternatives [] (d # ds))
      else if SyntaxCharacter c then None
      else parse_alternatives (cur @ [c]) (d # ds))"

definition RegExp :: "ustring \<Rightarrow> error + ustring list" where
  "RegExp pattern =
     (if take 3 pattern = [0x5C, 0x62, 0x28]
      then (case parse_alternatives [] (drop 3 pattern) of
              None \<Rightarrow> Inl NotAnAlternation
            | Some alts \<Rightarrow> Inr alts)
      else Inl NotAnAlternation)"

text \<open>
  The replacement function \<^verbatim>\<open>(_) => `${_[0]}<wbr/>${_.slice(1)}`\<close>. \<^verbatim>\<open>_[0]\<close> is
  \<^verbatim>\<open>undefined\<close> when the match is empty, and the template literal prints it.
\<close>

definition break_after_first :: "ustring \<Rightarrow> ustring" where
  "break_after_first m =
     (case m of [] \<Rightarrow> ustr ''undefined'' | c # _ \<Rightarrow> [c]) @ ustr ''<wbr/>'' @ drop 1 m"

text \<open>
  \<^verbatim>\<open>.replace(/\bimport\.meta/g, 'import.<wbr/>meta')\<close> and
  \<^verbatim>\<open>.replace(/\bprocess\.env/g, 'process.<wbr/>env')\<close>: a literal behind \<^verbatim>\<open>\b\<close>,
  and a replacement text without \<^verbatim>\<open>$\<close>, which stands for itself.
\<close>

definition guard_import_meta :: "ustring \<Rightarrow> ustring" where
  "guard_import_meta s =
     replace_matches [ustr ''import.meta''] (\<lambda>_. ustr ''import.<wbr/>meta'') None s"

definition guard_process_env :: "ustring \<Rightarrow> ustring" where
  "guard_process_env s =
     replace_matches [ustr ''process.env''] (\<lambda>_. ustr ''process.<wbr/>env'') None s"

text \<open>
  The function. \<open>define\<close> is \<^verbatim>\<open>Object.keys(define)\<close> when the argument is given,
  \<open>None\<close> when it is not; the values of the record are never read.
\<close>

definition preventViteConstantsReplacement ::
  "ustring \<Rightarrow> ustring list option \<Rightarrow> error + ustring" where
  "preventViteConstantsReplacement source define =
     (let source1 = guard_import_meta source;
          source2 = guard_process_env source1
      in case define of
           None \<Rightarrow> Inr source2
         | Some keys \<Rightarrow>
             (case RegExp ([0x5C, 0x62, 0x28] @ join [0x7C] (map escape_key keys) @ [0x29]) of
                Inl e \<Rightarrow> Inl e
              | Inr alts \<Rightarrow>
                  Inr (replace_matches alts break_after_first None source2)))"

text \<open>
  \<open>only_markers_inserted source out\<close>: \<open>out\<close> is \<open>source\<close> with copies of the marker
  \<^verbatim>\<open><wbr/>\<close> inserted and nothing else changed. Reading \<open>out\<close>, each step either
  skips one marker or takes the next code unit of \<open>source\<close>.
\<close>

function only_markers_inserted :: "ustring \<Rightarrow> ustring \<Rightarrow> bool" where
  "only_markers_inserted source [] \<longleftrightarrow> source = []"
| "only_markers_inserted source (c # out) \<longleftrightarrow>
     (take 6 (c # out) = ustr ''<wbr/>'' \<and> only_markers_inserted source (drop 5 out))
     \<or> (case source of [] \<Rightarrow> False | d # ds \<Rightarrow> d = c \<and> only_markers_inserted ds out)"
  by pat_completeness auto
termination
  by (relation "measure (\<lambda>(source, out). length out)") auto

text \<open>
  In the words of the specification for an empty match: the text \<open>ins\<close> at every word
  boundary of the string, \<open>before\<close> being the code unit before it.
\<close>

fun insert_at_boundaries :: "ustring \<Rightarrow> nat option \<Rightarrow> ustring \<Rightarrow> ustring" where
  "insert_at_boundaries ins before [] = (if word_boundary before None then ins else [])"
| "insert_at_boundaries ins before (c # cs) =
     (if word_boundary before (Some c) then ins else [])
     @ c # insert_at_boundaries ins (Some c) cs"

section \<open>Invariants of the loop\<close>

text \<open>
  Every object in the store has a requested level, and \<^verbatim>\<open>headers\<close> holds addresses
  of the store.
\<close>

definition levels_ok :: "int list \<Rightarrow> build \<Rightarrow> bool" where
  "levels_ok levels st \<longleftrightarrow>
     (\<forall>h \<in> set (heap st). level h \<in> set levels)
     \<and> (\<forall>a \<in> set (headers st). a < length (heap st))"

section \<open>The nesting in the words of the specification\<close>

text \<open>
  The headers that the loop captures are numbered in document order, and \<open>ls\<close> lists
  their levels. The nearest shallower header before header \<open>j\<close> is the last one before
  it with a strictly smaller level; there may be none.
\<close>

definition parent_of :: "int list \<Rightarrow> nat \<Rightarrow> nat option" where
  "parent_of ls j = List.find (\<lambda>i. ls ! i < ls ! j) (rev [0..<j])"

text \<open>
  A header is still open when every later header is strictly deeper: these are the ones
  that \<^verbatim>\<open>stack\<close> must hold.
\<close>

definition is_open :: "int list \<Rightarrow> nat \<Rightarrow> bool" where
  "is_open ls i \<longleftrightarrow> (\<forall>j. i < j \<and> j < length ls \<longrightarrow> ls ! i < ls ! j)"

text \<open>\<^verbatim>\<open>push\<close> called on each header of a list in turn, from the empty arrays.\<close>

definition pushes :: "MarkdownHeader list \<Rightarrow> build" where
  "pushes hs = foldl (\<lambda>st h. push h st) init hs"

text \<open>
  What holds of the variables after the headers \<open>hs\<close> have been pushed: object \<open>k\<close>
  of the store is header \<open>k\<close>, its \<^verbatim>\<open>children\<close> are the headers whose nearest
  shallower header it is, \<^verbatim>\<open>headers\<close> are those that have none, and \<^verbatim>\<open>stack\<close>
  holds the open headers, the latest in front.
\<close>

definition tree_inv :: "MarkdownHeader list \<Rightarrow> build \<Rightarrow> bool" where
  "tree_inv hs st \<longleftrightarrow>
     length (heap st) = length hs
     \<and> (\<forall>k < length hs.
          level (heap st ! k) = level (hs ! k)
          \<and> title (heap st ! k) = title (hs ! k)
          \<and> slug (heap st ! k) = slug (hs ! k)
          \<and> children (heap st ! k)
              = filter (\<lambda>j. parent_of (map level hs) j = Some k) [0..<length hs])
     \<and> headers st = filter (\<lambda>j. parent_of (map level hs) j = None) [0..<length hs]
     \<and> stack st = filter (is_open (map level hs)) (rev [0..<length hs])"

text \<open>
  The outline of a list of headers, as nesting by level reads: the first header takes the
  headers behind it for as long as they are strictly deeper, and these are outlined below
  it; the rest is outlined beside it.
\<close>

function outline :: "MarkdownHeader list \<Rightarrow> header_tree list" where
  "outline [] = []"
| "outline (h # hs) =
     Header (level h) (title h) (slug h) (outline (takeWhile (\<lambda>x. level h < level x) hs))
     # outline (dropWhile (\<lambda>x. level h < level x) hs)"
  by pat_completeness auto
termination
  by (relation "measure length")
     (auto simp: less_Suc_eq_le length_dropWhile_le intro: le_trans [OF length_takeWhile_le])

text \<open>The nearest shallower header of \<open>j\<close>, if there is one, lies before \<open>a\<close>.\<close>

definition parent_before :: "int list \<Rightarrow> nat \<Rightarrow> nat \<Rightarrow> bool" where
  "parent_before ls a j \<longleftrightarrow> (case parent_of ls j of None \<Rightarrow> True | Some p \<Rightarrow> p < a)"

text \<open>
  The header that the callback builds at an index, if it builds one: what it leaves in
  the store when run on the empty arrays. \<open>captured_headers\<close> are those of all indices,
  in document order.
\<close>

definition captured ::
  "(ustring \<Rightarrow> ustring) \<Rightarrow> Token list \<Rightarrow> int list \<Rightarrow> bool \<Rightarrow> bool \<Rightarrow> (ustring \<Rightarrow> ustring) \<Rightarrow>
   (ustring \<Rightarrow> ustring) option \<Rightarrow> nat \<Rightarrow> MarkdownHeader option" where
  "captured htmlEscape tokens levels allowHtml escapeText slugify_cb format idx =
     (case heap (visit htmlEscape tokens levels allowHtml escapeText slugify_cb format idx init) of
        [] \<Rightarrow> None
      | h # _ \<Rightarrow> Some h)"

definition captured_headers ::
  "(ustring \<Rightarrow> ustring) \<Rightarrow> Token list \<Rightarrow> int list \<Rightarrow> bool \<Rightarrow> bool \<Rightarrow> (ustring \<Rightarrow> ustring) \<Rightarrow>
   (ustring \<Rightarrow> ustring) option \<Rightarrow> MarkdownHeader list" where
  "captured_headers htmlEscape tokens levels allowHtml escapeText slugify_cb format =
     List.map_filter (captured htmlEscape tokens levels allowHtml escapeText slugify_cb format)
       [0..<length tokens]"

text \<open>The variables of the source alone, without the record of the callback's calls.\<close>

definition forget_calls :: "build \<Rightarrow> build" where
  "forget_calls st = st\<lparr>slugify_calls := []\<rparr>"

section \<open>Examples of the specification\<close>

text \<open>
  The heading content \<^verbatim>\<open>[text:"Intro ", code_inline:"<b>", html_inline:"<i>x</i>"]\<close>.
\<close>

definition example_title_token :: Token where
  "example_title_token =
     Token (ustr ''inline'') [] None
       (Some [Token (ustr ''text'') [] None None (ustr ''Intro '') None,
              Token (ustr ''code_inline'') (ustr ''code'') None None (ustr ''<b>'') None,
              Token (ustr ''html_inline'') [] None None (ustr ''<i>x</i>'') None])
       (ustr ''Intro'') None"

text \<open>
  Heading content with white space at both ends: line feed, space, U+FEFF, U+3000 and
  U+2028 in front, and a run of further white space behind; U+200B and U+0085, which
  \<^verbatim>\<open>trim\<close> keeps, stand next to them. And content that is white space only.
\<close>

definition example_padded_token :: Token where
  "example_padded_token =
     Token (ustr ''inline'') [] None
       (Some [Token (ustr ''text'') [] None None
                ([0x0A, 0x20, 0xFEFF, 0x3000, 0x2028] @ [0x200B] @ ustr ''Intro '') None,
              Token (ustr ''code_inline'') (ustr ''code'') None None (ustr ''<b>'') None,
              Token (ustr ''text'') [] None None
                ([0x85] @ [0x20, 0x09, 0xA0, 0x0D, 0x0B, 0x0C, 0x1680, 0x2000, 0x2003, 0x200A,
                           0x2029, 0x202F, 0x205F]) None])
       [] None"

definition example_blank_token :: Token where
  "example_blank_token =
     Token (ustr ''inline'') [] None
       (Some [Token (ustr ''text'') [] None None [0x20, 0x09] None,
              Token (ustr ''emoji'') [] None None [0x20] None])
       [] None"

text \<open>
  Token sequences as \<^verbatim>\<open>markdown-it\<close> emits them for a heading: the opening token with
  the tag and the attributes, an inline token whose children hold the text, and the
  closing token.
\<close>

definition heading_open :: "ustring \<Rightarrow> (ustring \<times> ustring) list option \<Rightarrow> Token" where
  "heading_open tag as = Token (ustr ''heading_open'') tag as None [] None"

definition inline_text :: "ustring \<Rightarrow> Token" where
  "inline_text t =
     Token (ustr ''inline'') [] None (Some [Token (ustr ''text'') [] None None t None]) t None"

definition heading_close :: "ustring \<Rightarrow> Token" where
  "heading_close tag = Token (ustr ''heading_close'') tag None None [] None"

definition heading :: "ustring \<Rightarrow> (ustring \<times> ustring) list option \<Rightarrow> ustring \<Rightarrow> Token list" where
  "heading tag as t = [heading_open tag as, inline_text t, heading_close tag]"

definition slug_latin1 :: "ustring \<Rightarrow> ustring" where
  "slug_latin1 = slugify normalize_NFKD_latin1 toLowerCase_latin1"

definition doc_levels :: "Token list" where
  "doc_levels = heading (ustr ''h1'') None (ustr ''A'') @ heading (ustr ''h3'') None (ustr ''B'')
                @ heading (ustr ''h2'') None (ustr ''C'')"

definition doc_custom_id :: "Token list" where
  "doc_custom_id = heading (ustr ''h1'') (Some [(ustr ''id'', ustr ''custom'')]) (ustr ''Some Title'')"

definition doc_empty_id :: "Token list" where
  "doc_empty_id = heading (ustr ''h2'') (Some [(ustr ''class'', ustr ''x''), (ustr ''id'', [])]) (ustr ''Title'')"

definition doc_unfinished :: "Token list" where
  "doc_unfinished = heading (ustr ''h1'') None (ustr ''A'') @ [heading_open (ustr ''h2'') None]"

text \<open>
  \<^verbatim>\<open># A\<close>, \<^verbatim>\<open>## B\<close>, \<^verbatim>\<open>## C\<close>; and \<^verbatim>\<open>## A\<close>, \<^verbatim>\<open>#### B\<close>,
  \<^verbatim>\<open>### C\<close>, \<^verbatim>\<open># D\<close>, where level 3 is skipped on the way down.
\<close>

definition doc_siblings :: "Token list" where
  "doc_siblings = heading (ustr ''h1'') None (ustr ''A'') @ heading (ustr ''h2'') None (ustr ''B'')
                  @ heading (ustr ''h2'') None (ustr ''C'')"

definition doc_skipped :: "Token list" where
  "doc_skipped = heading (ustr ''h2'') None (ustr ''A'') @ heading (ustr ''h4'') None (ustr ''B'')
                 @ heading (ustr ''h3'') None (ustr ''C'') @ heading (ustr ''h1'') None (ustr ''D'')"

section \<open>Properties of slugify\<close>

lemma replace_each_delete: "replace_each cls (\<lambda>_. []) s = filter (\<lambda>c. \<not> cls c) s"
  by (induction s) auto

lemma hyphenate_from_Nil: "hyphenate_from cls b [] = []"
  by (simp add: hyphenate_from_def)

lemma hyphenate_from_Cons:
  "hyphenate_from cls b (c # cs) =
     (if cls c then (if b then [] else [hyphen]) else [c]) @ hyphenate_from cls (cls c) cs"
  by (simp add: hyphenate_from_def)

lemma replace_runs_plus_from:
  "hyphenate_from cls False s = replace_runs cls 1 [hyphen] s \<and>
   hyphenate_from cls True s = replace_runs cls 1 [hyphen] (dropWhile cls s)"
  by (induction s) (simp_all add: hyphenate_from_Nil hyphenate_from_Cons)

lemma replace_runs_two_from:
  "hyphenate_from isHyphen False s = replace_runs isHyphen 2 [hyphen] s \<and>
   hyphenate_from isHyphen True s = replace_runs isHyphen 2 [hyphen] (dropWhile isHyphen s)"
proof (induction s)
  case Nil
  show ?case by (simp add: hyphenate_from_Nil)
next
  case (Cons c cs)
  show ?case
  proof (cases cs)
    case Nil
    then show ?thesis by (simp add: hyphenate_from_Nil hyphenate_from_Cons isHyphen_def)
  next
    case (Cons d ds)
    with Cons.IH show ?thesis
      by (auto simp add: hyphenate_from_Cons isHyphen_def)
  qed
qed

lemma replace_runs_plus: "replace_runs cls 1 [hyphen] s = hyphenate_runs cls s"
  by (simp add: hyphenate_runs_def replace_runs_plus_from)

lemma replace_runs_two: "replace_runs isHyphen 2 [hyphen] s = hyphenate_runs isHyphen s"
  by (simp add: hyphenate_runs_def replace_runs_two_from)

lemma strip_edges_False: "strip_edges False s = rev (dropWhile isHyphen (rev s))"
  by (induction s) (auto simp: dropWhile_append isHyphen_def list_all_iff)

lemma strip_edges_True: "strip_edges True s = strip_edges False (dropWhile isHyphen s)"
  by (cases s) (auto simp: isHyphen_def)

lemma escape_leading_digit_eq:
  "escape_leading_digit s = (if s \<noteq> [] \<and> isDigit (hd s) then 0x5F # s else s)"
  by (cases s) (simp_all add: escape_leading_digit_def)

lemma strip_edges_trim:
  "strip_edges True s
     = rev (dropWhile (\<lambda>c. c = hyphen) (rev (dropWhile (\<lambda>c. c = hyphen) s)))"
proof -
  have "isHyphen = (\<lambda>c. c = hyphen)"
    by (rule ext) (simp add: isHyphen_def)
  then show ?thesis
    using strip_edges_True [of s] strip_edges_False [of "dropWhile isHyphen s"] by simp
qed

lemma collapse_hyphens:
  "replace_runs isHyphen 2 [hyphen] s = hyphenate_runs (\<lambda>c. c = hyphen) s"
proof -
  have "isHyphen = (\<lambda>c. c = hyphen)"
    by (rule ext) (simp add: isHyphen_def)
  then show ?thesis
    using replace_runs_two [of s] by simp
qed

lemma strip_combining:
  "replace_each rCombining (\<lambda>_. []) s = filter (\<lambda>c. \<not> (0x300 \<le> c \<and> c \<le> 0x36F)) s"
  by (simp add: replace_each_delete rCombining_def)

lemma strip_control:
  "replace_each rControl (\<lambda>_. []) s = filter (\<lambda>c. \<not> c \<le> 0x1F) s"
  by (simp add: replace_each_delete rControl_def)

lemma rSpecial_listed:
  "rSpecial c \<longleftrightarrow> special_listed c \<or> c = 0x60 \<or> c = 0x201C \<or> c = 0x201D"
  by (auto simp add: rSpecial_def special_listed_def ustr_def)

text \<open>The definitions that evaluate \<open>slugify\<close> on a Latin-1 string.\<close>

lemmas slugify_eval =
  slugify_def normalize_NFKD_latin1_def toLowerCase_latin1_def decomposition_latin1_def
  rCombining_def rControl_def rSpecial_def isWhiteSpace_def ustr_def hyphen_def isHyphen_def
  escape_leading_digit_def isDigit_def

text \<open>
  C3 (as amended). \<open>slugify\<close> is the eight steps in their order: normalize; drop
  U+0300 to U+036F; drop U+0000 to U+001F; replace each maximal run of the class by one
  hyphen; collapse runs of hyphens; trim hyphens at both ends; put an underscore before a
  leading digit; lowercase. The class of step 4 is the one the specification lists
  together with the backtick U+0060 and the curly double quotes U+201C and U+201D.
\<close>

theorem slugify_steps_in_order:
  "slugify normalize_NFKD toLowerCase str = slugify_steps rSpecial normalize_NFKD toLowerCase str
   \<and> (rSpecial c \<longleftrightarrow> special_listed c \<or> c = 0x60 \<or> c = 0x201C \<or> c = 0x201D)"
proof
  show "slugify normalize_NFKD toLowerCase str
          = slugify_steps rSpecial normalize_NFKD toLowerCase str"
    unfolding slugify_def slugify_steps_def Let_def
    by (simp only: strip_combining strip_control replace_runs_plus collapse_hyphens
        strip_edges_trim escape_leading_digit_eq)
  show "rSpecial c \<longleftrightarrow> special_listed c \<or> c = 0x60 \<or> c = 0x201C \<or> c = 0x201D"
    by (rule rSpecial_listed)
qed

text \<open>
  \<^verbatim>\<open>Hello, World!\<close> gives \<^verbatim>\<open>hello-world\<close>, by the source and by the steps; the
  backtick is in the class of the source and not in the listed one.
\<close>

theorem slugify_steps_in_order_witness:
  "slugify normalize_NFKD_latin1 toLowerCase_latin1 (ustr ''Hello, World!'') = ustr ''hello-world''
   \<and> slugify_steps rSpecial normalize_NFKD_latin1 toLowerCase_latin1 (ustr ''Hello, World!'')
       = ustr ''hello-world''
   \<and> rSpecial 0x60 \<and> \<not> special_listed 0x60"
proof -
  have "slugify normalize_NFKD_latin1 toLowerCase_latin1 (ustr ''Hello, World!'')
          = ustr ''hello-world''"
    by (simp add: slugify_eval)
  moreover have "\<not> special_listed 0x60"
    by (simp add: special_listed_def isWhiteSpace_def ustr_def)
  ultimately show ?thesis
    using slugify_steps_in_order
      [of normalize_NFKD_latin1 toLowerCase_latin1 "ustr ''Hello, World!''" "0x60"]
    by simp
qed

text \<open>
  C3 as stated fails: with the class as the specification lists it, a backtick is no
  special character, but the source replaces it.
\<close>

theorem slugify_listed_class_counterexample:
  "slugify normalize_NFKD_latin1 toLowerCase_latin1 [0x61, 0x60, 0x62] = ustr ''a-b''
   \<and> slugify_spec normalize_NFKD_latin1 toLowerCase_latin1 [0x61, 0x60, 0x62]
       \<noteq> slugify normalize_NFKD_latin1 toLowerCase_latin1 [0x61, 0x60, 0x62]"
  by (simp add: slugify_eval slugify_spec_def slugify_steps_def hyphenate_runs_def
      hyphenate_from_def special_listed_def)

text \<open>
  C4 as stated fails: the em dash U+2014 is in no class of the source, so it stays,
  between the hyphens that replace the spaces around it.
\<close>

theorem slugify_cafe_counterexample:
  "slugify normalize_NFKD_latin1 toLowerCase_latin1
     [0x43, 0x61, 0x66, 0xE9, 0x20, 0x2014, 0x20, 0x44, 0xE9, 0x6A, 0xE0, 0x20, 0x56, 0x75]
   \<noteq> ustr ''cafe-deja-vu''"
  by (simp add: slugify_eval)

text \<open>
  C4 (as amended). \<open>slugify\<close> of \<^verbatim>\<open>Caf\<close>, U+00E9, space, U+2014, space,
  \<^verbatim>\<open>D\<close>, U+00E9, \<^verbatim>\<open>j\<close>, U+00E0, \<^verbatim>\<open> Vu\<close> is \<^verbatim>\<open>cafe-\<close>, U+2014,
  \<^verbatim>\<open>-deja-vu\<close>.
\<close>

theorem slugify_cafe_keeps_dash:
  "slugify normalize_NFKD_latin1 toLowerCase_latin1
     [0x43, 0x61, 0x66, 0xE9, 0x20, 0x2014, 0x20, 0x44, 0xE9, 0x6A, 0xE0, 0x20, 0x56, 0x75]
   = ustr ''cafe-'' @ [0x2014] @ ustr ''-deja-vu''"
  by (simp add: slugify_eval)

section \<open>Properties of resolveTitleFromToken\<close>

lemma foldl_append_concat:
  "foldl (\<lambda>result item. result @ f item) acc xs = acc @ concat (map f xs)"
  by (induction xs arbitrary: acc) simp_all

lemma foldl_title:
  "foldl (\<lambda>result item. if P item then result @ f item else result @ g item) acc xs
     = acc @ concat (map (\<lambda>item. if P item then f item else g item) xs)"
proof -
  have "(\<lambda>result item. if P item then result @ f item else result @ g item)
          = (\<lambda>result item. result @ (if P item then f item else g item))"
    by (intro ext) simp
  then show ?thesis by (simp only: foldl_append_concat)
qed

text \<open>\<open>trim\<close> takes white space, and nothing else, from both ends.\<close>

lemma last_dropWhile: "dropWhile P xs \<noteq> [] \<Longrightarrow> last (dropWhile P xs) = last xs"
  by (induction xs) (auto split: if_splits)

lemma trim_splits:
  "\<exists>pre post. s = pre @ trim s @ post \<and> list_all isWhiteSpace pre \<and> list_all isWhiteSpace post"
proof -
  let ?d = "dropWhile isWhiteSpace s"
  have "s = takeWhile isWhiteSpace s @ ?d" by simp
  moreover have "rev ?d = takeWhile isWhiteSpace (rev ?d) @ dropWhile isWhiteSpace (rev ?d)"
    by simp
  then have "?d = trim s @ rev (takeWhile isWhiteSpace (rev ?d))"
    unfolding trim_def by (metis rev_append rev_rev_ident)
  ultimately have "s = takeWhile isWhiteSpace s @ trim s @ rev (takeWhile isWhiteSpace (rev ?d))"
    by simp
  moreover have "list_all isWhiteSpace (takeWhile isWhiteSpace s)"
    by (auto simp add: list_all_iff dest: set_takeWhileD)
  moreover have "list_all isWhiteSpace (rev (takeWhile isWhiteSpace (rev ?d)))"
    by (auto simp add: list_all_iff dest: set_takeWhileD)
  ultimately show ?thesis by blast
qed

lemma trim_ends:
  assumes "trim s \<noteq> []"
  shows "\<not> isWhiteSpace (hd (trim s))" and "\<not> isWhiteSpace (last (trim s))"
proof -
  let ?d = "dropWhile isWhiteSpace s"
  let ?e = "dropWhile isWhiteSpace (rev ?d)"
  from assms have e: "?e \<noteq> []" by (simp add: trim_def)
  have d: "?d \<noteq> []"
  proof
    assume "?d = []"
    then have "?e = []" by (simp del: dropWhile_eq_Nil_conv)
    with e show False by simp
  qed
  have "last (trim s) = hd ?e" using e by (simp add: trim_def last_rev)
  moreover have "\<not> isWhiteSpace (hd ?e)" using e by (rule hd_dropWhile)
  ultimately show "\<not> isWhiteSpace (last (trim s))" by simp
  have "hd (trim s) = last ?e" using e by (simp add: trim_def hd_rev)
  also have "\<dots> = last (rev ?d)" using e by (rule last_dropWhile)
  also have "\<dots> = hd ?d" using d by (simp add: last_rev)
  finally have "hd (trim s) = hd ?d" .
  moreover have "\<not> isWhiteSpace (hd ?d)" using d by (rule hd_dropWhile)
  ultimately show "\<not> isWhiteSpace (hd (trim s))" by simp
qed


text \<open>
  C5. Take, in order, the content of the children whose type is \<^verbatim>\<open>text\<close>,
  \<^verbatim>\<open>emoji\<close> or \<^verbatim>\<open>code_inline\<close>, or \<^verbatim>\<open>html_inline\<close> when \<open>allowHtml\<close>
  holds, and that are no permalink symbol; with \<open>escapeText\<close> the content of
  \<^verbatim>\<open>text\<close> and \<^verbatim>\<open>code_inline\<close> children goes through \<open>htmlEscape\<close>, and no
  other content ever does. The concatenation is white space, then the title, then white
  space, and a title that is not empty neither begins nor ends with white space: the
  title is the concatenation without the white space at its two ends. The example of the
  specification gives \<^verbatim>\<open>Intro &lt;b&gt;<i>x</i>\<close>.
\<close>

theorem resolveTitleFromToken_allow_list:
  "(let raw = concat (map
       (\<lambda>item. if escapeText \<and> (token_type item = ustr ''text''
                                \<or> token_type item = ustr ''code_inline'')
               then htmlEscape (token_content item) else token_content item)
       (filter
         (\<lambda>item. (token_type item = ustr ''text'' \<or> token_type item = ustr ''emoji''
                   \<or> token_type item = ustr ''code_inline''
                   \<or> (allowHtml \<and> token_type item = ustr ''html_inline''))
                 \<and> token_meta item \<notin> Some ` {m. isPermalinkSymbol m})
         (case token_children token of None \<Rightarrow> [] | Some cs \<Rightarrow> cs)));
        t = resolveTitleFromToken htmlEscape token allowHtml escapeText
    in (\<exists>pre post. raw = pre @ t @ post
          \<and> list_all isWhiteSpace pre \<and> list_all isWhiteSpace post)
       \<and> (t \<noteq> [] \<longrightarrow> \<not> isWhiteSpace (hd t) \<and> \<not> isWhiteSpace (last t)))
   \<and> resolveTitleFromToken htmlEscape_spec example_title_token True True
       = ustr ''Intro &lt;b&gt;<i>x</i>''"
proof
  have filt: "(\<lambda>item. token_type item \<in> set ([ustr ''text'', ustr ''emoji'', ustr ''code_inline'']
                  @ (if allowHtml then [ustr ''html_inline''] else []))
                \<and> \<not> (case token_meta item of None \<Rightarrow> False | Some m \<Rightarrow> isPermalinkSymbol m))
     = (\<lambda>item. (token_type item = ustr ''text'' \<or> token_type item = ustr ''emoji''
                   \<or> token_type item = ustr ''code_inline''
                   \<or> (allowHtml \<and> token_type item = ustr ''html_inline''))
                 \<and> token_meta item \<notin> Some ` {m. isPermalinkSymbol m})"
    by (intro ext) (auto split: option.splits)
  have title: "resolveTitleFromToken htmlEscape token allowHtml escapeText =
     trim (concat (map
       (\<lambda>item. if escapeText \<and> (token_type item = ustr ''text''
                                \<or> token_type item = ustr ''code_inline'')
               then htmlEscape (token_content item) else token_content item)
       (filter
         (\<lambda>item. (token_type item = ustr ''text'' \<or> token_type item = ustr ''emoji''
                   \<or> token_type item = ustr ''code_inline''
                   \<or> (allowHtml \<and> token_type item = ustr ''html_inline''))
                 \<and> token_meta item \<notin> Some ` {m. isPermalinkSymbol m})
         (case token_children token of None \<Rightarrow> [] | Some cs \<Rightarrow> cs))))"
    unfolding resolveTitleFromToken_def Let_def foldl_title filt
    by (simp add: disj_commute)
  show "let raw = concat (map
       (\<lambda>item. if escapeText \<and> (token_type item = ustr ''text''
                                \<or> token_type item = ustr ''code_inline'')
               then htmlEscape (token_content item) else token_content item)
       (filter
         (\<lambda>item. (token_type item = ustr ''text'' \<or> token_type item = ustr ''emoji''
                   \<or> token_type item = ustr ''code_inline''
                   \<or> (allowHtml \<and> token_type item = ustr ''html_inline''))
                 \<and> token_meta item \<notin> Some ` {m. isPermalinkSymbol m})
         (case token_children token of None \<Rightarrow> [] | Some cs \<Rightarrow> cs)));
        t = resolveTitleFromToken htmlEscape token allowHtml escapeText
    in (\<exists>pre post. raw = pre @ t @ post
          \<and> list_all isWhiteSpace pre \<and> list_all isWhiteSpace post)
       \<and> (t \<noteq> [] \<longrightarrow> \<not> isWhiteSpace (hd t) \<and> \<not> isWhiteSpace (last t))"
    unfolding Let_def title using trim_splits trim_ends by blast
  show "resolveTitleFromToken htmlEscape_spec example_title_token True True
       = ustr ''Intro &lt;b&gt;<i>x</i>''"
    by (simp add: resolveTitleFromToken_def example_title_token_def htmlEscape_spec_def
        trim_def isWhiteSpace_def ustr_def)
qed

text \<open>
  With white space at both ends of the content, the title is what lies between, from
  U+200B to U+0085; content of white space only gives the empty title. The example without
  inline HTML, and without escaping, gives \<^verbatim>\<open>Intro &lt;b&gt;\<close> and
  \<^verbatim>\<open>Intro <b><i>x</i>\<close>.
\<close>

theorem resolveTitleFromToken_allow_list_witness:
  "resolveTitleFromToken htmlEscape_spec example_padded_token True True
     = [0x200B] @ ustr ''Intro &lt;b&gt;'' @ [0x85]
   \<and> list_all isWhiteSpace [0x0A, 0x20, 0xFEFF, 0x3000, 0x2028]
   \<and> list_all isWhiteSpace [0x20, 0x09, 0xA0, 0x0D, 0x0B, 0x0C, 0x1680, 0x2000, 0x2003, 0x200A,
                              0x2029, 0x202F, 0x205F]
   \<and> \<not> isWhiteSpace (hd (resolveTitleFromToken htmlEscape_spec example_padded_token True True))
   \<and> \<not> isWhiteSpace (last (resolveTitleFromToken htmlEscape_spec example_padded_token True True))
   \<and> resolveTitleFromToken htmlEscape_spec example_blank_token True True = []
   \<and> resolveTitleFromToken htmlEscape_spec example_title_token False True = ustr ''Intro &lt;b&gt;''
   \<and> resolveTitleFromToken htmlEscape_spec example_title_token True False
       = ustr ''Intro <b><i>x</i>''"
proof -
  have p: "resolveTitleFromToken htmlEscape_spec example_padded_token True True
             = [0x200B] @ ustr ''Intro &lt;b&gt;'' @ [0x85]"
    by (simp add: resolveTitleFromToken_def example_padded_token_def htmlEscape_spec_def
        trim_def isWhiteSpace_def ustr_def)
  have b: "resolveTitleFromToken htmlEscape_spec example_blank_token True True = []"
    by (simp add: resolveTitleFromToken_def example_blank_token_def htmlEscape_spec_def
        trim_def isWhiteSpace_def ustr_def)
  have e: "resolveTitleFromToken htmlEscape_spec example_title_token False True
             = ustr ''Intro &lt;b&gt;''"
    "resolveTitleFromToken htmlEscape_spec example_title_token True False
       = ustr ''Intro <b><i>x</i>''"
    by (simp_all add: resolveTitleFromToken_def example_title_token_def htmlEscape_spec_def
        trim_def isWhiteSpace_def ustr_def)
  have w: "list_all isWhiteSpace [0x0A, 0x20, 0xFEFF, 0x3000, 0x2028]"
    "list_all isWhiteSpace [0x20, 0x09, 0xA0, 0x0D, 0x0B, 0x0C, 0x1680, 0x2000, 0x2003, 0x200A,
                            0x2029, 0x202F, 0x205F]"
    by (simp_all add: isWhiteSpace_def)
  have n: "resolveTitleFromToken htmlEscape_spec example_padded_token True True \<noteq> []"
    by (simp add: p)
  from resolveTitleFromToken_allow_list [of True htmlEscape_spec True example_padded_token] n
  have "\<not> isWhiteSpace (hd (resolveTitleFromToken htmlEscape_spec example_padded_token True True))"
    and "\<not> isWhiteSpace (last (resolveTitleFromToken htmlEscape_spec example_padded_token True True))"
    by (simp_all add: Let_def)
  with p b e w show ?thesis by simp
qed

section \<open>Properties of push and of the callback\<close>

lemma shift_while_dropWhile:
  "shift_while hp l stk = dropWhile (\<lambda>a. l \<le> level (hp ! a)) stk"
  by (induction stk) simp_all

lemma push_heap_last: "last (heap (push h st)) = h"
  by (simp add: push_def Let_def split: list.splits)

lemma push_slugify_calls: "slugify_calls (push h st) = slugify_calls st"
  by (simp add: push_def Let_def split: list.splits)

lemma push_log:
  "push h (st\<lparr>slugify_calls := cs\<rparr>) = (push h st)\<lparr>slugify_calls := cs\<rparr>"
  by (simp add: push_def Let_def split: list.splits)

lemma visit_captured_heading:
  assumes "at_index tokens idx = Some token"
    and "token_type token = ustr ''heading_open''"
    and "parseInt (drop 1 (token_tag token)) = Some l"
    and "l \<in> set levels"
    and "at_index tokens (idx + 1) = Some nextToken"
  shows "visit htmlEscape tokens levels allowHtml escapeText slugify_cb format idx st =
     (let t = resolveTitleFromToken htmlEscape nextToken allowHtml escapeText
      in push \<lparr>level = l,
               title = (case format of Some f \<Rightarrow> f t | None \<Rightarrow> t),
               slug = (case attrGet token (ustr ''id'') of Some v \<Rightarrow> v | None \<Rightarrow> slugify_cb t),
               children = []\<rparr>
           (st\<lparr>slugify_calls := slugify_calls st
                  @ (case attrGet token (ustr ''id'') of Some v \<Rightarrow> [] | None \<Rightarrow> [t])\<rparr>))"
  using assms by (simp add: visit_def Let_def split: option.splits)

lemma visit_skips:
  assumes "at_index tokens idx = None
     \<or> (\<exists>token. at_index tokens idx = Some token \<and>
          (token_type token \<noteq> ustr ''heading_open''
           \<or> parseInt (drop 1 (token_tag token)) \<notin> Some ` set levels
           \<or> at_index tokens (idx + 1) = None))"
  shows "visit htmlEscape tokens levels allowHtml escapeText slugify_cb format idx st = st"
  using assms by (auto simp add: visit_def Let_def split: option.splits)


declare header_at.simps [simp del]

lemma visit_cases:
  "visit htmlEscape tokens levels allowHtml escapeText slugify_cb format idx st = st
   \<or> (\<exists>h cs. level h \<in> set levels \<and> children h = []
         \<and> visit htmlEscape tokens levels allowHtml escapeText slugify_cb format idx st
             = push h (st\<lparr>slugify_calls := cs\<rparr>))"
proof (cases "\<exists>token l nextToken. at_index tokens idx = Some token
      \<and> token_type token = ustr ''heading_open''
      \<and> parseInt (drop 1 (token_tag token)) = Some l \<and> l \<in> set levels
      \<and> at_index tokens (idx + 1) = Some nextToken")
  case True
  then obtain token l nextToken where h: "at_index tokens idx = Some token"
      "token_type token = ustr ''heading_open''"
      "parseInt (drop 1 (token_tag token)) = Some l" "l \<in> set levels"
      "at_index tokens (idx + 1) = Some nextToken"
    by blast
  show ?thesis
    unfolding visit_captured_heading [OF h] Let_def
    by (rule disjI2, intro exI conjI, rule_tac [3] refl) (simp_all add: h)
next
  case False
  then have "visit htmlEscape tokens levels allowHtml escapeText slugify_cb format idx st = st"
    by (intro visit_skips) (cases "at_index tokens idx"; cases "at_index tokens (idx + 1)"; force)
  then show ?thesis by simp
qed

lemma foldl_invariant:
  assumes "P a" and "\<And>s x. P s \<Longrightarrow> P (f s x)"
  shows "P (foldl f a xs)"
  using assms(1) by (induction xs arbitrary: a) (simp_all add: assms(2))

lemma set_update_field:
  assumes "\<forall>h \<in> set hp. P (level h)"
  shows "\<forall>h \<in> set (hp[i := (hp ! i)\<lparr>children := cs\<rparr>]). P (level h)"
proof
  fix h assume "h \<in> set (hp[i := (hp ! i)\<lparr>children := cs\<rparr>])"
  then have "h \<in> insert ((hp ! i)\<lparr>children := cs\<rparr>) (set hp)"
    using set_update_subset_insert by fastforce
  moreover have "i < length hp \<or> hp[i := (hp ! i)\<lparr>children := cs\<rparr>] = hp"
    by (cases "i < length hp") (simp_all add: list_update_beyond)
  ultimately show "P (level h)"
    using assms \<open>h \<in> set (hp[i := (hp ! i)\<lparr>children := cs\<rparr>])\<close> by (auto simp: nth_mem)
qed

lemma push_levels:
  assumes "\<forall>h' \<in> set (heap st). level h' \<in> L" and "level h \<in> L"
  shows "\<forall>h' \<in> set (heap (push h st)). level h' \<in> L"
  using assms set_update_field [of "heap st" "\<lambda>l. l \<in> L"]
  by (auto simp add: push_def Let_def split: list.splits)

lemma push_headers_valid:
  assumes "\<forall>a \<in> set (headers st). a < length (heap st)"
  shows "\<forall>a \<in> set (headers (push h st)). a < length (heap (push h st))"
  using assms by (auto simp add: push_def Let_def less_Suc_eq split: list.splits)

lemma visit_levels_ok:
  assumes "levels_ok levels st"
  shows "levels_ok levels
           (visit htmlEscape tokens levels allowHtml escapeText slugify_cb format idx st)"
proof -
  let ?v = "visit htmlEscape tokens levels allowHtml escapeText slugify_cb format idx st"
  from visit_cases [of htmlEscape tokens levels allowHtml escapeText slugify_cb format idx st]
  consider "?v = st"
    | h cs where "level h \<in> set levels" "?v = push h (st\<lparr>slugify_calls := cs\<rparr>)"
    by blast
  then show ?thesis
  proof cases
    case 1
    with assms show ?thesis by simp
  next
    case 2
    have "levels_ok levels (st\<lparr>slugify_calls := cs\<rparr>)"
      using assms by (simp add: levels_ok_def)
    then show ?thesis
      unfolding 2(2) levels_ok_def using push_levels [OF _ 2(1)] push_headers_valid
      by blast
  qed
qed

lemma run_levels_ok:
  "levels_ok levels (run htmlEscape tokens levels allowHtml escapeText slugify_cb format)"
  unfolding run_def
  by (rule foldl_invariant) (simp_all add: levels_ok_def init_def visit_levels_ok [unfolded levels_ok_def])

lemma header_at_levels:
  "a < length hp \<Longrightarrow> header_level ` set (flatten (header_at hp a)) \<subseteq> level ` set hp"
proof (induction hp a rule: header_at.induct)
  case (1 hp a)
  have "header_level ` set (flatten (header_at hp c)) \<subseteq> level ` set hp"
    if "c \<in> set (filter (\<lambda>c. a < c \<and> c < length hp) (children (hp ! a)))" for c
    using 1 that by simp
  then show ?case
    using "1.prems" by (subst header_at.simps) (auto simp: nth_mem)
qed


text \<open>The definitions that evaluate the loop on a token sequence.\<close>

lemmas tokens_eval =
  heading_def heading_open_def inline_text_def heading_close_def slug_latin1_def
  run_def visit_def at_index_def parseInt_def resolveTitleFromToken_def attrGet_def push_def
  init_def trim_def resolveHeadersFromTokens_def header_at.simps Let_def htmlEscape_spec_def


text \<open>
  C2. Every header of the returned tree, at any depth, has a level of the requested set,
  and the callback leaves all variables as they are at a token whose tag gives no level
  of the set (a level outside it, or no number at all).
\<close>

theorem levels_from_the_requested_set:
  "(\<forall>t \<in> set (resolveHeadersFromTokens htmlEscape tokens levels allowHtml escapeText
                  slugify_cb format).
      \<forall>h \<in> set (flatten t). header_level h \<in> set levels)
   \<and> (\<forall>token. at_index tokens idx = Some token
         \<and> parseInt (drop 1 (token_tag token)) \<notin> Some ` set levels
       \<longrightarrow> visit htmlEscape tokens levels allowHtml escapeText slugify_cb format idx st = st)"
proof (intro conjI ballI allI impI)
  fix t h
  let ?st = "run htmlEscape tokens levels allowHtml escapeText slugify_cb format"
  assume t: "t \<in> set (resolveHeadersFromTokens htmlEscape tokens levels allowHtml escapeText
                  slugify_cb format)"
    and h: "h \<in> set (flatten t)"
  have ok: "levels_ok levels ?st" by (rule run_levels_ok)
  from t obtain a where a: "a \<in> set (headers ?st)" "t = header_at (heap ?st) a"
    by (auto simp add: resolveHeadersFromTokens_def Let_def)
  from ok a(1) have "a < length (heap ?st)" by (simp add: levels_ok_def)
  from header_at_levels [OF this] h a(2)
  have "header_level h \<in> level ` set (heap ?st)" by blast
  with ok show "header_level h \<in> set levels" by (auto simp add: levels_ok_def)
next
  fix token
  assume "at_index tokens idx = Some token
         \<and> parseInt (drop 1 (token_tag token)) \<notin> Some ` set levels"
  then show "visit htmlEscape tokens levels allowHtml escapeText slugify_cb format idx st = st"
    by (intro visit_skips) simp
qed

text \<open>
  With levels 1 and 2 requested, the document \<^verbatim>\<open># A\<close>, \<^verbatim>\<open>### B\<close>,
  \<^verbatim>\<open>## C\<close> gives A with the one child C; the callback changes nothing at the opening
  token of B, which is at index 3.
\<close>

theorem levels_from_the_requested_set_witness:
  "resolveHeadersFromTokens htmlEscape_spec doc_levels [1, 2] False True slug_latin1 None
     = [Header 1 (ustr ''A'') (ustr ''a'') [Header 2 (ustr ''C'') (ustr ''c'') []]]
   \<and> list_all (\<lambda>t. list_all (\<lambda>h. header_level h \<in> set [1, 2]) (flatten t))
       (resolveHeadersFromTokens htmlEscape_spec doc_levels [1, 2] False True slug_latin1 None)
   \<and> at_index doc_levels 3 = Some (heading_open (ustr ''h3'') None)
   \<and> parseInt (drop 1 (token_tag (heading_open (ustr ''h3'') None))) = Some 3
   \<and> visit htmlEscape_spec doc_levels [1, 2] False True slug_latin1 None 3 init = init"
proof -
  have a: "at_index doc_levels 3 = Some (heading_open (ustr ''h3'') None)"
    by (simp add: doc_levels_def tokens_eval)
  have p: "parseInt (drop 1 (token_tag (heading_open (ustr ''h3'') None))) = Some 3"
    by (simp add: tokens_eval ustr_def isWhiteSpace_def isDigit_def)
  have r: "resolveHeadersFromTokens htmlEscape_spec doc_levels [1, 2] False True slug_latin1 None
     = [Header 1 (ustr ''A'') (ustr ''a'') [Header 2 (ustr ''C'') (ustr ''c'') []]]"
    by (simp add: doc_levels_def tokens_eval slugify_eval upt_rec)
  from levels_from_the_requested_set
    [of htmlEscape_spec doc_levels "[1, 2]" False True slug_latin1 None 3 init]
  have "list_all (\<lambda>t. list_all (\<lambda>h. header_level h \<in> set [1, 2]) (flatten t))
       (resolveHeadersFromTokens htmlEscape_spec doc_levels [1, 2] False True slug_latin1 None)"
    and "visit htmlEscape_spec doc_levels [1, 2] False True slug_latin1 None 3 init = init"
    using a p by (simp_all add: list_all_iff)
  with a p r show ?thesis by simp
qed

text \<open>
  C6. The header that the callback stores for a captured heading has the value of the
  \<^verbatim>\<open>id\<close> attribute as its slug when the opening token has one, and otherwise
  \<open>slugify_cb\<close> of the extracted title; \<open>format\<close> changes the stored title only, so
  the slug is computed from the title as extracted.
\<close>

theorem slug_from_id_or_unformatted_title:
  assumes "at_index tokens idx = Some token"
    and "token_type token = ustr ''heading_open''"
    and "parseInt (drop 1 (token_tag token)) = Some l"
    and "l \<in> set levels"
    and "at_index tokens (idx + 1) = Some nextToken"
  shows "let t = resolveTitleFromToken htmlEscape nextToken allowHtml escapeText;
             h = last (heap (visit htmlEscape tokens levels allowHtml escapeText slugify_cb
                               format idx st))
         in slug h = (case attrGet token (ustr ''id'') of Some v \<Rightarrow> v | None \<Rightarrow> slugify_cb t)
            \<and> title h = (case format of Some f \<Rightarrow> f t | None \<Rightarrow> t)
            \<and> level h = l"
  unfolding visit_captured_heading [OF assms] Let_def push_heap_last by simp

text \<open>
  A level-1 heading \<^verbatim>\<open>Some Title\<close> with \<^verbatim>\<open>id="custom"\<close> and a \<open>format\<close> that
  puts \<^verbatim>\<open># \<close> in front; without the attribute the slug is \<^verbatim>\<open>some-title\<close>, not
  the slug of the formatted title.
\<close>

theorem slug_from_id_or_unformatted_title_witness:
  "at_index doc_custom_id 0 = Some (heading_open (ustr ''h1'') (Some [(ustr ''id'', ustr ''custom'')]))
   \<and> token_type (heading_open (ustr ''h1'') (Some [(ustr ''id'', ustr ''custom'')])) = ustr ''heading_open''
   \<and> parseInt (drop 1 (token_tag (heading_open (ustr ''h1'') (Some [(ustr ''id'', ustr ''custom'')])))) = Some 1
   \<and> 1 \<in> set [1, 2, 3 :: int]
   \<and> at_index doc_custom_id (0 + 1) = Some (inline_text (ustr ''Some Title''))
   \<and> slug (last (heap (visit htmlEscape_spec doc_custom_id [1, 2, 3] False True slug_latin1
                          (Some (\<lambda>s. ustr ''# '' @ s)) 0 init))) = ustr ''custom''
   \<and> title (last (heap (visit htmlEscape_spec doc_custom_id [1, 2, 3] False True slug_latin1
                          (Some (\<lambda>s. ustr ''# '' @ s)) 0 init))) = ustr ''# Some Title''
   \<and> resolveHeadersFromTokens htmlEscape_spec doc_custom_id [1, 2, 3] False True slug_latin1
        (Some (\<lambda>s. ustr ''# '' @ s))
      = [Header 1 (ustr ''# Some Title'') (ustr ''custom'') []]
   \<and> resolveHeadersFromTokens htmlEscape_spec (heading (ustr ''h1'') None (ustr ''Some Title''))
        [1, 2, 3] False True slug_latin1 (Some (\<lambda>s. ustr ''# '' @ s))
      = [Header 1 (ustr ''# Some Title'') (ustr ''some-title'') []]"
proof -
  let ?tok = "heading_open (ustr ''h1'') (Some [(ustr ''id'', ustr ''custom'')])"
  have a: "at_index doc_custom_id 0 = Some ?tok"
    by (simp add: doc_custom_id_def tokens_eval)
  have b: "token_type ?tok = ustr ''heading_open''"
    by (simp add: tokens_eval)
  have c: "parseInt (drop 1 (token_tag ?tok)) = Some 1"
    by (simp add: tokens_eval ustr_def isWhiteSpace_def isDigit_def)
  have d: "1 \<in> set [1, 2, 3 :: int]" by simp
  have e: "at_index doc_custom_id (0 + 1) = Some (inline_text (ustr ''Some Title''))"
    by (simp add: doc_custom_id_def tokens_eval)
  have f: "resolveTitleFromToken htmlEscape_spec (inline_text (ustr ''Some Title'')) False True
             = ustr ''Some Title''"
    by (simp add: tokens_eval ustr_def isWhiteSpace_def)
  have g: "attrGet ?tok (ustr ''id'') = Some (ustr ''custom'')"
    by (simp add: tokens_eval ustr_def)
  from slug_from_id_or_unformatted_title [OF a b c d e,
      of htmlEscape_spec False True slug_latin1 "Some (\<lambda>s. ustr ''# '' @ s)" init]
  have "slug (last (heap (visit htmlEscape_spec doc_custom_id [1, 2, 3] False True slug_latin1
                          (Some (\<lambda>s. ustr ''# '' @ s)) 0 init))) = ustr ''custom''"
    and "title (last (heap (visit htmlEscape_spec doc_custom_id [1, 2, 3] False True slug_latin1
                          (Some (\<lambda>s. ustr ''# '' @ s)) 0 init))) = ustr ''# Some Title''"
    by (simp_all add: Let_def f g) (simp_all add: ustr_def)
  moreover have "resolveHeadersFromTokens htmlEscape_spec doc_custom_id [1, 2, 3] False True
        slug_latin1 (Some (\<lambda>s. ustr ''# '' @ s))
      = [Header 1 (ustr ''# Some Title'') (ustr ''custom'') []]"
    by (simp add: doc_custom_id_def tokens_eval slugify_eval upt_rec)
  moreover have "resolveHeadersFromTokens htmlEscape_spec
        (heading (ustr ''h1'') None (ustr ''Some Title''))
        [1, 2, 3] False True slug_latin1 (Some (\<lambda>s. ustr ''# '' @ s))
      = [Header 1 (ustr ''# Some Title'') (ustr ''some-title'') []]"
    by (simp add: tokens_eval slugify_eval upt_rec)
  ultimately show ?thesis using a b c d e by simp
qed


text \<open>
  C7. At an index with no token behind it the callback changes nothing, so the last
  token of a sequence never produces a header: the loop over a sequence is the loop over
  all its indices but the last. The model has no error value to return: the source has
  no \<^verbatim>\<open>throw\<close>, and each of its reads that could meet \<^verbatim>\<open>undefined\<close> is a
  branch of \<open>visit\<close> (\<open>at_index\<close>) or of \<open>push\<close> (the empty stack).
\<close>

theorem heading_without_next_token_skipped:
  "(at_index tokens (idx + 1) = None
      \<longrightarrow> visit htmlEscape tokens levels allowHtml escapeText slugify_cb format idx st = st)
   \<and> run htmlEscape (ts @ [last_token]) levels allowHtml escapeText slugify_cb format
       = foldl (\<lambda>st idx. visit htmlEscape (ts @ [last_token]) levels allowHtml escapeText
                           slugify_cb format idx st)
           init [0..<length ts]"
proof (intro conjI impI)
  assume "at_index tokens (idx + 1) = None"
  then show "visit htmlEscape tokens levels allowHtml escapeText slugify_cb format idx st = st"
    by (intro visit_skips) (cases "at_index tokens idx"; simp)
next
  have "at_index (ts @ [last_token]) (length ts + 1) = None"
    by (simp add: at_index_def)
  then have "visit htmlEscape (ts @ [last_token]) levels allowHtml escapeText slugify_cb format
               (length ts) s = s" for s
    by (intro visit_skips) (cases "at_index (ts @ [last_token]) (length ts)"; simp)
  then show "run htmlEscape (ts @ [last_token]) levels allowHtml escapeText slugify_cb format
       = foldl (\<lambda>st idx. visit htmlEscape (ts @ [last_token]) levels allowHtml escapeText
                           slugify_cb format idx st)
           init [0..<length ts]"
    by (simp add: run_def)
qed

text \<open>
  A lone opening token gives no header, and one at the end of a document leaves the
  headers before it.
\<close>

theorem heading_without_next_token_skipped_witness:
  "at_index [heading_open (ustr ''h1'') None] (0 + 1) = None
   \<and> visit htmlEscape_spec [heading_open (ustr ''h1'') None] [1, 2] False True slug_latin1 None
        0 init = init
   \<and> run htmlEscape_spec ([] @ [heading_open (ustr ''h1'') None]) [1, 2] False True slug_latin1
        None = init
   \<and> resolveHeadersFromTokens htmlEscape_spec doc_unfinished [1, 2] False True slug_latin1 None
       = [Header 1 (ustr ''A'') (ustr ''a'') []]"
proof -
  have a: "at_index [heading_open (ustr ''h1'') None] (0 + 1) = None"
    by (simp add: at_index_def)
  from heading_without_next_token_skipped
    [of "[heading_open (ustr ''h1'') None]" 0 htmlEscape_spec "[1, 2]" False True slug_latin1
      None init "[]" "heading_open (ustr ''h1'') None"]
  have "visit htmlEscape_spec [heading_open (ustr ''h1'') None] [1, 2] False True slug_latin1
          None 0 init = init"
    and "run htmlEscape_spec ([] @ [heading_open (ustr ''h1'') None]) [1, 2] False True
          slug_latin1 None = init"
    using a by simp_all
  moreover have "resolveHeadersFromTokens htmlEscape_spec doc_unfinished [1, 2] False True
        slug_latin1 None = [Header 1 (ustr ''A'') (ustr ''a'') []]"
    by (simp add: doc_unfinished_def tokens_eval slugify_eval upt_rec)
  ultimately show ?thesis using a by simp
qed

text \<open>
  C10. When the \<^verbatim>\<open>id\<close> attribute of a captured heading is the empty string, the
  stored slug is the empty string, \<open>slugify_cb\<close> is not called, and any other callback
  in its place gives the same state. The callback is called, once and with the extracted
  title, exactly when \<^verbatim>\<open>attrGet\<close> returns \<^verbatim>\<open>null\<close>.
\<close>

theorem empty_id_is_the_slug:
  assumes "at_index tokens idx = Some token"
    and "token_type token = ustr ''heading_open''"
    and "parseInt (drop 1 (token_tag token)) = Some l"
    and "l \<in> set levels"
    and "at_index tokens (idx + 1) = Some nextToken"
  shows "let v = visit htmlEscape tokens levels allowHtml escapeText slugify_cb format idx st;
             t = resolveTitleFromToken htmlEscape nextToken allowHtml escapeText
         in (attrGet token (ustr ''id'') = Some []
               \<longrightarrow> slug (last (heap v)) = [] \<and> slugify_calls v = slugify_calls st
                   \<and> v = visit htmlEscape tokens levels allowHtml escapeText other_cb format idx st)
            \<and> slugify_calls v
                = slugify_calls st @ (case attrGet token (ustr ''id'') of None \<Rightarrow> [t] | Some _ \<Rightarrow> [])"
  unfolding visit_captured_heading [OF assms] Let_def push_heap_last push_slugify_calls
  by simp

text \<open>
  A level-2 heading with \<^verbatim>\<open>class="x" id=""\<close>: the slug is empty and nothing was
  slugified; without attributes the title was.
\<close>

theorem empty_id_is_the_slug_witness:
  "at_index doc_empty_id 0
     = Some (heading_open (ustr ''h2'') (Some [(ustr ''class'', ustr ''x''), (ustr ''id'', [])]))
   \<and> 2 \<in> set [1, 2, 3 :: int]
   \<and> at_index doc_empty_id (0 + 1) = Some (inline_text (ustr ''Title''))
   \<and> attrGet (heading_open (ustr ''h2'') (Some [(ustr ''class'', ustr ''x''), (ustr ''id'', [])]))
        (ustr ''id'') = Some []
   \<and> slug (last (heap (visit htmlEscape_spec doc_empty_id [1, 2, 3] False True slug_latin1 None
                          0 init))) = []
   \<and> slugify_calls (visit htmlEscape_spec doc_empty_id [1, 2, 3] False True slug_latin1 None
                       0 init) = []
   \<and> resolveHeadersFromTokens htmlEscape_spec doc_empty_id [1, 2, 3] False True slug_latin1 None
       = [Header 2 (ustr ''Title'') [] []]
   \<and> slugify_calls (run htmlEscape_spec (heading (ustr ''h2'') None (ustr ''Title'')) [1, 2, 3]
                       False True slug_latin1 None) = [ustr ''Title'']"
proof -
  let ?tok = "heading_open (ustr ''h2'') (Some [(ustr ''class'', ustr ''x''), (ustr ''id'', [])])"
  have a: "at_index doc_empty_id 0 = Some ?tok"
    by (simp add: doc_empty_id_def tokens_eval)
  have b: "token_type ?tok = ustr ''heading_open''"
    by (simp add: tokens_eval)
  have c: "parseInt (drop 1 (token_tag ?tok)) = Some 2"
    by (simp add: tokens_eval ustr_def isWhiteSpace_def isDigit_def)
  have d: "2 \<in> set [1, 2, 3 :: int]" by simp
  have e: "at_index doc_empty_id (0 + 1) = Some (inline_text (ustr ''Title''))"
    by (simp add: doc_empty_id_def tokens_eval)
  have g: "attrGet ?tok (ustr ''id'') = Some []"
    by (simp add: tokens_eval ustr_def)
  from empty_id_is_the_slug [OF a b c d e,
      of htmlEscape_spec False True slug_latin1 None init slug_latin1]
  have "slug (last (heap (visit htmlEscape_spec doc_empty_id [1, 2, 3] False True slug_latin1
                            None 0 init))) = []"
    and "slugify_calls (visit htmlEscape_spec doc_empty_id [1, 2, 3] False True slug_latin1 None
                       0 init) = []"
    by (simp_all add: Let_def g init_def)
  moreover have "resolveHeadersFromTokens htmlEscape_spec doc_empty_id [1, 2, 3] False True
        slug_latin1 None = [Header 2 (ustr ''Title'') [] []]"
    by (simp add: doc_empty_id_def tokens_eval slugify_eval upt_rec)
  moreover have "slugify_calls (run htmlEscape_spec (heading (ustr ''h2'') None (ustr ''Title''))
        [1, 2, 3] False True slug_latin1 None) = [ustr ''Title'']"
    by (simp add: tokens_eval slugify_eval upt_rec)
  ultimately show ?thesis using a d e g by simp
qed

section \<open>The tree that push builds\<close>

lemma parent_of_snoc:
  assumes "j < length ls"
  shows "parent_of (ls @ [l]) j = parent_of ls j"
  unfolding parent_of_def using assms
  by (intro find_cong refl) (simp add: nth_append)

lemma parent_of_last:
  "parent_of (ls @ [l]) (length ls) = List.find (\<lambda>i. ls ! i < l) (rev [0..<length ls])"
  unfolding parent_of_def
  by (intro find_cong refl) (simp add: nth_append)

lemma find_rev_upt:
  "List.find Q (rev [0..<n]) = Some c \<Longrightarrow> c < n \<and> Q c \<and> (\<forall>j. c < j \<and> j < n \<longrightarrow> \<not> Q j)"
proof (induction n)
  case 0
  then show ?case by simp
next
  case (Suc n)
  show ?case
  proof (cases "Q n")
    case True
    with Suc.prems show ?thesis by auto
  next
    case False
    with Suc.prems have "List.find Q (rev [0..<n]) = Some c" by simp
    from Suc.IH [OF this] False show ?thesis
      by (auto simp: less_Suc_eq)
  qed
qed

lemma parent_of_less: "parent_of ls j = Some k \<Longrightarrow> k < j"
  unfolding parent_of_def by (drule find_rev_upt) simp

lemma find_filter:
  assumes "\<And>x. List.find Q xs = Some x \<Longrightarrow> P x"
  shows "List.find Q (filter P xs) = List.find Q xs"
  using assms by (induction xs) auto

lemma dropWhile_filter:
  assumes "sorted_wrt R xs" and "\<And>a b. R a b \<Longrightarrow> \<not> P a \<Longrightarrow> \<not> P b"
  shows "dropWhile P xs = filter (\<lambda>x. \<not> P x) xs"
  using assms(1)
proof (induction xs)
  case Nil
  show ?case by simp
next
  case (Cons x xs)
  show ?case
  proof (cases "P x")
    case True
    with Cons show ?thesis by simp
  next
    case False
    with Cons.prems assms(2) have "\<forall>y \<in> set xs. \<not> P y" by auto
    then have "filter (\<lambda>x. \<not> P x) xs = xs" by (simp add: filter_id_conv)
    with False show ?thesis by simp
  qed
qed

lemma open_sorted:
  "sorted_wrt (\<lambda>a b. ls ! b < ls ! a) (filter (is_open ls) (rev [0..<length ls]))"
proof -
  have "sorted_wrt (\<lambda>a b. b < a) (rev [0..<length ls])"
    by (simp add: sorted_wrt_rev)
  then have "sorted_wrt (\<lambda>a b. b < a) (filter (is_open ls) (rev [0..<length ls]))"
    by (rule sorted_wrt_filter)
  then show ?thesis
    by (rule sorted_wrt_mono_rel [rotated]) (auto simp: is_open_def)
qed

lemma is_open_snoc:
  assumes "i < length ls"
  shows "is_open (ls @ [l]) i \<longleftrightarrow> is_open ls i \<and> ls ! i < l"
proof
  assume o: "is_open (ls @ [l]) i"
  have "is_open ls i"
    unfolding is_open_def
  proof (intro allI impI)
    fix j assume j: "i < j \<and> j < length ls"
    with o have "(ls @ [l]) ! i < (ls @ [l]) ! j" by (simp add: is_open_def)
    with j show "ls ! i < ls ! j" by (simp add: nth_append)
  qed
  moreover have "(ls @ [l]) ! i < (ls @ [l]) ! length ls"
    using o assms unfolding is_open_def by (elim allE [of _ "length ls"]) simp
  ultimately show "is_open ls i \<and> ls ! i < l" using assms by (simp add: nth_append)
next
  assume a: "is_open ls i \<and> ls ! i < l"
  show "is_open (ls @ [l]) i"
    unfolding is_open_def
  proof (intro allI impI)
    fix j assume j: "i < j \<and> j < length (ls @ [l])"
    show "(ls @ [l]) ! i < (ls @ [l]) ! j"
    proof (cases "j < length ls")
      case True
      with a j show ?thesis by (simp add: is_open_def nth_append)
    next
      case False
      with j have "j = length ls" by simp
      with a assms show ?thesis by (simp add: nth_append)
    qed
  qed
qed

lemma is_open_last: "is_open (ls @ [l]) (length ls)"
  by (simp add: is_open_def)

lemma open_after_shift:
  "dropWhile (\<lambda>a. l \<le> ls ! a) (filter (is_open ls) (rev [0..<length ls]))
     = filter (is_open (ls @ [l])) (rev [0..<length ls])"
proof -
  have "dropWhile (\<lambda>a. l \<le> ls ! a) (filter (is_open ls) (rev [0..<length ls]))
          = filter (\<lambda>a. \<not> l \<le> ls ! a) (filter (is_open ls) (rev [0..<length ls]))"
    by (rule dropWhile_filter [OF open_sorted]) simp
  also have "\<dots> = filter (is_open (ls @ [l])) (rev [0..<length ls])"
    unfolding filter_filter
    by (rule filter_cong) (auto simp add: is_open_snoc)
  finally show ?thesis .
qed

lemma front_after_shift:
  "(case dropWhile (\<lambda>a. l \<le> ls ! a) (filter (is_open ls) (rev [0..<length ls])) of
      [] \<Rightarrow> None | a # _ \<Rightarrow> Some a)
   = parent_of (ls @ [l]) (length ls)"
proof -
  have n: "Not \<circ> (\<lambda>a. ls ! a < l) = (\<lambda>a. l \<le> ls ! a)"
    by (rule ext) auto
  have "List.find (\<lambda>a. ls ! a < l) (filter (is_open ls) (rev [0..<length ls]))
          = List.find (\<lambda>a. ls ! a < l) (rev [0..<length ls])"
  proof (rule find_filter)
    fix c assume "List.find (\<lambda>a. ls ! a < l) (rev [0..<length ls]) = Some c"
    from find_rev_upt [OF this] show "is_open ls c"
      by (fastforce simp add: is_open_def)
  qed
  then show ?thesis
    by (simp add: parent_of_last find_dropWhile [of "\<lambda>a. ls ! a < l"] n)
qed


lemma filter_parent_snoc:
  "filter (\<lambda>j. parent_of (ls @ [l]) j = x) [0..<Suc (length ls)]
     = filter (\<lambda>j. parent_of ls j = x) [0..<length ls]
       @ (if parent_of (ls @ [l]) (length ls) = x then [length ls] else [])"
proof -
  have "filter (\<lambda>j. parent_of (ls @ [l]) j = x) [0..<length ls]
          = filter (\<lambda>j. parent_of ls j = x) [0..<length ls]"
    by (rule filter_cong) (simp_all add: parent_of_snoc)
  then show ?thesis by simp
qed

lemma tree_inv_push:
  assumes inv: "tree_inv hs st" and fresh: "children h = []"
  shows "tree_inv (hs @ [h]) (push h st)"
proof -
  let ?n = "length hs"
  let ?ls = "map level hs"
  let ?ls' = "?ls @ [level h]"
  let ?stack1 = "shift_while (heap st) (level h) (stack st)"
  from inv have len: "length (heap st) = ?n"
    and cell: "\<And>k. k < ?n \<Longrightarrow> level (heap st ! k) = level (hs ! k)
          \<and> title (heap st ! k) = title (hs ! k)
          \<and> slug (heap st ! k) = slug (hs ! k)
          \<and> children (heap st ! k) = filter (\<lambda>j. parent_of ?ls j = Some k) [0..<?n]"
    and hd: "headers st = filter (\<lambda>j. parent_of ?ls j = None) [0..<?n]"
    and stk: "stack st = filter (is_open ?ls) (rev [0..<?n])"
    by (simp_all add: tree_inv_def)
  have "?stack1 = dropWhile (\<lambda>a. level h \<le> level (heap st ! a)) (stack st)"
    by (rule shift_while_dropWhile)
  also have "\<dots> = dropWhile (\<lambda>a. level h \<le> ?ls ! a) (stack st)"
    by (rule dropWhile_cong) (auto simp add: stk cell)
  also have "\<dots> = dropWhile (\<lambda>a. level h \<le> ?ls ! a)
                      (filter (is_open ?ls) (rev [0..<length ?ls]))"
    by (simp only: stk length_map)
  finally have shift: "?stack1 = dropWhile (\<lambda>a. level h \<le> ?ls ! a)
                      (filter (is_open ?ls) (rev [0..<length ?ls]))" .
  have stack1: "?stack1 = filter (is_open ?ls') (rev [0..<?n])"
    using open_after_shift [of "level h" ?ls] by (simp only: shift length_map)
  have front: "(case ?stack1 of [] \<Rightarrow> None | a # _ \<Rightarrow> Some a) = parent_of ?ls' ?n"
    using front_after_shift [of "level h" ?ls] by (simp only: shift length_map)
  have newstack: "filter (is_open ?ls') (rev [0..<Suc ?n]) = ?n # ?stack1"
    using is_open_last [of ?ls "level h"] by (simp add: stack1)
  have kids: "filter (\<lambda>j. parent_of ?ls' j = x) [0..<Suc ?n]
     = filter (\<lambda>j. parent_of ?ls j = x) [0..<?n]
       @ (if parent_of ?ls' ?n = x then [?n] else [])" for x
    using filter_parent_snoc [of ?ls "level h" x] by simp
  have last_kids: "filter (\<lambda>j. parent_of ?ls' j = Some ?n) [0..<Suc ?n] = []"
  proof -
    have "parent_of ?ls' j \<noteq> Some ?n" if "j < Suc ?n" for j
      using parent_of_less [of ?ls' j ?n] that by auto
    then show ?thesis by (simp add: filter_empty_conv)
  qed
  show ?thesis
  proof (cases ?stack1)
    case Nil
    with front have none: "parent_of ?ls' ?n = None" by simp
    have p: "push h st = st\<lparr>heap := heap st @ [h], headers := headers st @ [?n], stack := [?n]\<rparr>"
      by (simp add: push_def Let_def Nil len)
    have "level ((heap st @ [h]) ! k) = level ((hs @ [h]) ! k)
          \<and> title ((heap st @ [h]) ! k) = title ((hs @ [h]) ! k)
          \<and> slug ((heap st @ [h]) ! k) = slug ((hs @ [h]) ! k)
          \<and> children ((heap st @ [h]) ! k)
              = filter (\<lambda>j. parent_of ?ls' j = Some k) [0..<Suc ?n]"
      if "k < Suc ?n" for k
    proof (cases "k < ?n")
      case True
      with cell [OF True] show ?thesis
        by (simp add: nth_append len kids none del: upt_Suc)
    next
      case False
      with that have "k = ?n" by simp
      then show ?thesis by (simp add: nth_append len fresh last_kids del: upt_Suc)
    qed
    then show ?thesis
      unfolding tree_inv_def p using Nil newstack
      by (simp add: len hd kids none del: upt_Suc)
  next
    case (Cons a rest)
    with front have some: "parent_of ?ls' ?n = Some a" by simp
    then have a: "a < ?n" using parent_of_less by fastforce
    let ?cell = "(heap st ! a)\<lparr>children := children (heap st ! a) @ [?n]\<rparr>"
    have p: "push h st = st\<lparr>heap := (heap st)[a := ?cell] @ [h], stack := ?n # ?stack1\<rparr>"
      by (simp add: push_def Let_def Cons len)
    have "level (((heap st)[a := ?cell] @ [h]) ! k) = level ((hs @ [h]) ! k)
          \<and> title (((heap st)[a := ?cell] @ [h]) ! k) = title ((hs @ [h]) ! k)
          \<and> slug (((heap st)[a := ?cell] @ [h]) ! k) = slug ((hs @ [h]) ! k)
          \<and> children (((heap st)[a := ?cell] @ [h]) ! k)
              = filter (\<lambda>j. parent_of ?ls' j = Some k) [0..<Suc ?n]"
      if "k < Suc ?n" for k
    proof (cases "k < ?n")
      case True
      with cell [OF True] show ?thesis
        by (cases "k = a") (simp_all add: nth_append len kids some nth_list_update del: upt_Suc)
    next
      case False
      with that have "k = ?n" by simp
      then show ?thesis by (simp add: nth_append len fresh last_kids del: upt_Suc)
    qed
    then show ?thesis
      unfolding tree_inv_def p using newstack
      by (simp add: len hd kids some del: upt_Suc)
  qed
qed

lemma tree_inv_pushes:
  assumes "\<forall>h \<in> set hs. children h = []"
  shows "tree_inv hs (pushes hs)"
  using assms
proof (induction hs rule: rev_induct)
  case Nil
  show ?case by (simp add: tree_inv_def pushes_def init_def)
next
  case (snoc h hs)
  then have "tree_inv hs (pushes hs)" and "children h = []" by simp_all
  then have "tree_inv (hs @ [h]) (push h (pushes hs))" by (rule tree_inv_push)
  then show ?case by (simp add: pushes_def)
qed


lemma visit_captured:
  "forget_calls (visit htmlEscape tokens levels allowHtml escapeText slugify_cb format idx st)
     = (case captured htmlEscape tokens levels allowHtml escapeText slugify_cb format idx of
          None \<Rightarrow> forget_calls st
        | Some h \<Rightarrow> push h (forget_calls st))
   \<and> (\<forall>h. captured htmlEscape tokens levels allowHtml escapeText slugify_cb format idx = Some h
          \<longrightarrow> children h = [])"
proof (cases "\<exists>token l nextToken. at_index tokens idx = Some token
      \<and> token_type token = ustr ''heading_open''
      \<and> parseInt (drop 1 (token_tag token)) = Some l \<and> l \<in> set levels
      \<and> at_index tokens (idx + 1) = Some nextToken")
  case True
  then obtain token l nextToken where h: "at_index tokens idx = Some token"
      "token_type token = ustr ''heading_open''"
      "parseInt (drop 1 (token_tag token)) = Some l" "l \<in> set levels"
      "at_index tokens (idx + 1) = Some nextToken"
    by blast
  have fp: "forget_calls (push x (s\<lparr>slugify_calls := cs\<rparr>)) = push x (forget_calls s)" for x s cs
    by (simp add: forget_calls_def push_log)
  show ?thesis
    unfolding captured_def visit_captured_heading [OF h] Let_def fp
    by (simp add: push_def init_def)
next
  case False
  then have "visit htmlEscape tokens levels allowHtml escapeText slugify_cb format idx s = s" for s
    by (intro visit_skips) (cases "at_index tokens idx"; cases "at_index tokens (idx + 1)"; force)
  then show ?thesis by (simp add: captured_def init_def)
qed

lemma foldl_map_filter:
  assumes "\<And>s x. F (V s x) = (case C x of None \<Rightarrow> F s | Some h \<Rightarrow> P h (F s))"
  shows "F (foldl V s xs) = foldl (\<lambda>s h. P h s) (F s) (List.map_filter C xs)"
proof (induction xs arbitrary: s)
  case Nil
  show ?case by (simp add: map_filter_simps)
next
  case (Cons x xs)
  show ?case
    by (cases "C x") (simp_all add: map_filter_simps Cons.IH assms)
qed

lemma run_pushes:
  "forget_calls (run htmlEscape tokens levels allowHtml escapeText slugify_cb format)
     = pushes (captured_headers htmlEscape tokens levels allowHtml escapeText slugify_cb format)"
proof -
  have "forget_calls init = init" by (simp add: forget_calls_def init_def)
  then show ?thesis
    unfolding run_def pushes_def captured_headers_def
    using foldl_map_filter [where F = forget_calls and P = push and s = init
        and V = "\<lambda>st idx. visit htmlEscape tokens levels allowHtml escapeText slugify_cb
                             format idx st"
        and C = "captured htmlEscape tokens levels allowHtml escapeText slugify_cb format"
        and xs = "[0..<length tokens]"]
      visit_captured [of htmlEscape tokens levels allowHtml escapeText slugify_cb format]
    by simp
qed

lemma captured_headers_fresh:
  "\<forall>h \<in> set (captured_headers htmlEscape tokens levels allowHtml escapeText slugify_cb format).
     children h = []"
  using visit_captured [of htmlEscape tokens levels allowHtml escapeText slugify_cb format]
  by (auto simp add: captured_headers_def List.map_filter_def)

lemma run_tree_inv:
  "tree_inv (captured_headers htmlEscape tokens levels allowHtml escapeText slugify_cb format)
     (forget_calls (run htmlEscape tokens levels allowHtml escapeText slugify_cb format))"
  unfolding run_pushes by (rule tree_inv_pushes [OF captured_headers_fresh])

lemma push_as_specified:
  "push h b =
     (let stack1 = dropWhile (\<lambda>a. level h \<le> level (heap b ! a)) (stack b);
          new = length (heap b)
      in if stack1 = []
         then b\<lparr>heap := heap b @ [h], headers := headers b @ [new], stack := [new]\<rparr>
         else b\<lparr>heap := (heap b)
                           [hd stack1 := (heap b ! hd stack1)
                              \<lparr>children := children (heap b ! hd stack1) @ [new]\<rparr>]
                         @ [h],
                 stack := new # stack1\<rparr>)"
  by (cases "dropWhile (\<lambda>a. level h \<le> level (heap b ! a)) (stack b)")
    (simp_all add: push_def Let_def shift_while_dropWhile del: dropWhile_eq_Nil_conv)


lemma run_children_above:
  assumes "a < length (heap (run htmlEscape tokens levels allowHtml escapeText slugify_cb format))"
  shows "filter (\<lambda>c. a < c
                   \<and> c < length (heap (run htmlEscape tokens levels allowHtml escapeText slugify_cb format)))
           (children (heap (run htmlEscape tokens levels allowHtml escapeText slugify_cb format) ! a))
         = children (heap (run htmlEscape tokens levels allowHtml escapeText slugify_cb format) ! a)"
proof -
  let ?st = "run htmlEscape tokens levels allowHtml escapeText slugify_cb format"
  let ?hs = "captured_headers htmlEscape tokens levels allowHtml escapeText slugify_cb format"
  have inv: "tree_inv ?hs (forget_calls ?st)" by (rule run_tree_inv)
  then have len: "length (heap ?st) = length ?hs"
    by (simp add: tree_inv_def forget_calls_def)
  with inv assms have "children (heap ?st ! a)
      = filter (\<lambda>j. parent_of (map level ?hs) j = Some a) [0..<length ?hs]"
    by (simp add: tree_inv_def forget_calls_def)
  then have "\<forall>c \<in> set (children (heap ?st ! a)). a < c \<and> c < length (heap ?st)"
    using parent_of_less len by auto
  then show ?thesis by (simp add: filter_id_conv)
qed

subsection \<open>The returned forest is the outline\<close>

lemma parent_of_SomeD:
  assumes "parent_of ls j = Some p"
  shows "p < j" and "ls ! p < ls ! j" and "\<And>i. p < i \<Longrightarrow> i < j \<Longrightarrow> ls ! j \<le> ls ! i"
  using find_rev_upt [OF assms [unfolded parent_of_def]] by (auto simp: not_less)

lemma parent_of_NoneD:
  assumes "parent_of ls j = None" and "i < j"
  shows "ls ! j \<le> ls ! i"
proof -
  from assms(1) have "\<not> ls ! i < ls ! j"
    using assms(2) by (auto simp add: parent_of_def find_None_iff)
  then show ?thesis by simp
qed

text \<open>A shallower-or-equal header at \<open>q\<close> separates what is behind it from \<open>a\<close> before it.\<close>

lemma parent_not_across:
  assumes "a < q" and "q \<le> j" and "ls ! q \<le> ls ! a" and "a \<le> p" and "p < q"
    and "\<And>i. a < i \<Longrightarrow> i < q \<Longrightarrow> ls ! a < ls ! i"
  shows "parent_of ls j \<noteq> Some p"
proof
  assume par: "parent_of ls j = Some p"
  have pa: "ls ! a \<le> ls ! p"
  proof (cases "p = a")
    case True
    then show ?thesis by simp
  next
    case False
    with assms(4) have "a < p" by simp
    from assms(6) [OF this assms(5)] show ?thesis by simp
  qed
  show False
  proof (cases "j = q")
    case True
    with parent_of_SomeD(2) [OF par] assms(3) pa show False by simp
  next
    case False
    with assms(2) have "q < j" by simp
    from parent_of_SomeD(3) [OF par assms(5) this] parent_of_SomeD(2) [OF par] assms(3) pa
    show False by simp
  qed
qed

lemma parent_inside:
  assumes "a < j" and "ls ! a < ls ! j"
  shows "\<exists>p. parent_of ls j = Some p \<and> a \<le> p"
proof (cases "parent_of ls j")
  case None
  from parent_of_NoneD [OF None assms(1)] assms(2) show ?thesis by simp
next
  case (Some p)
  have "a \<le> p"
  proof (rule ccontr)
    assume "\<not> a \<le> p"
    then have "p < a" by simp
    from parent_of_SomeD(3) [OF Some this assms(1)] assms(2) show False by simp
  qed
  with Some show ?thesis by simp
qed


lemma upt_split: "i \<le> j \<Longrightarrow> j \<le> k \<Longrightarrow> [i..<k] = [i..<j] @ [j..<k]"
  using upt_add_eq_append [of i j "k - j"] by simp

lemma forest_is_outline:
  assumes len: "length hp = length hs"
    and cell: "\<And>k. k < length hs \<Longrightarrow>
        level (hp ! k) = level (hs ! k) \<and> title (hp ! k) = title (hs ! k)
        \<and> slug (hp ! k) = slug (hs ! k)
        \<and> children (hp ! k)
            = filter (\<lambda>j. parent_of (map level hs) j = Some k) [0..<length hs]"
  shows "a \<le> e \<Longrightarrow> e \<le> length hs
    \<Longrightarrow> (e < length hs \<longrightarrow> (\<forall>i. a \<le> i \<and> i < e \<longrightarrow> map level hs ! e < map level hs ! i))
    \<Longrightarrow> map (header_at hp) (filter (parent_before (map level hs) a) [a..<e])
          = outline (take (e - a) (drop a hs))"
proof (induction "e - a" arbitrary: a e rule: less_induct)
  case less
  let ?ls = "map level hs"
  let ?n = "length hs"
  show ?case
  proof (cases "a < e")
    case False
    with less.prems(1) have "a = e" by simp
    then show ?thesis by simp
  next
    case True
    define P where "P = (\<lambda>x :: MarkdownHeader. level (hs ! a) < level x)"
    define rest where "rest = take (e - a - 1) (drop (a + 1) hs)"
    define k where "k = length (takeWhile P rest)"
    define m where "m = a + 1 + k"
    have a_n: "a < ?n" using True less.prems(2) by simp
    have rest_len: "length rest = e - a - 1"
      using less.prems(2) by (simp add: rest_def)
    have k_le: "k \<le> e - a - 1"
      using length_takeWhile_le [of P rest] by (simp add: k_def rest_len)
    have m_bounds: "a < m" "m \<le> e" "m \<le> ?n"
      using k_le True less.prems(2) by (simp_all add: m_def)
    have rest_nth: "rest ! i = hs ! (a + 1 + i)" if "i < e - a - 1" for i
      using that less.prems(2) by (simp add: rest_def)
    have ls_nth: "?ls ! i = level (hs ! i)" if "i < ?n" for i
      using that by simp
    have S1: "?ls ! a < ?ls ! j" if "a < j" "j < m" for j
    proof -
      define i where "i = j - (a + 1)"
      have i: "i < k" "j = a + 1 + i" using that by (simp_all add: i_def m_def)
      then have "takeWhile P rest ! i \<in> set (takeWhile P rest)"
        by (simp add: k_def)
      then have "P (takeWhile P rest ! i)" by (rule set_takeWhileD [THEN conjunct2])
      moreover have "takeWhile P rest ! i = rest ! i"
        using i(1) by (simp add: k_def takeWhile_nth)
      moreover have "rest ! i = hs ! j"
        using rest_nth [of i] i k_le by simp
      ultimately have "level (hs ! a) < level (hs ! j)" by (simp add: P_def)
      moreover have "j < ?n" using that m_bounds by simp
      ultimately show ?thesis using a_n by simp
    qed
    have S2: "?ls ! m \<le> ?ls ! a" if "m < ?n"
    proof (cases "m < e")
      case True
      then have kl: "k < length rest" by (simp add: m_def rest_len)
      then have "\<not> P (rest ! k)"
        unfolding k_def by (rule nth_length_takeWhile)
      moreover have "rest ! k = hs ! m"
        using rest_nth [of k] kl by (simp add: rest_len m_def)
      ultimately show ?thesis using that a_n by (simp add: P_def)
    next
      case False
      with m_bounds have "m = e" by simp
      with that less.prems(3) \<open>a < e\<close> have "?ls ! e < ?ls ! a" by simp
      with \<open>m = e\<close> show ?thesis by simp
    qed
    have xs: "take (e - a) (drop a hs) = hs ! a # rest"
    proof -
      have "drop a hs = hs ! a # drop (Suc a) hs"
        using a_n by (simp add: Cons_nth_drop_Suc)
      moreover have "e - a = Suc (e - a - 1)" using True by simp
      ultimately show ?thesis by (simp add: rest_def)
    qed
    have sub: "takeWhile P rest = take (m - (a + 1)) (drop (a + 1) hs)"
    proof -
      have "takeWhile P rest = take k rest"
        unfolding k_def by (rule takeWhile_eq_take)
      also have "\<dots> = take k (drop (a + 1) hs)"
        using k_le by (simp add: rest_def min_def)
      finally show ?thesis by (simp add: m_def)
    qed
    have oth: "dropWhile P rest = take (e - m) (drop m hs)"
    proof -
      have "dropWhile P rest = drop k rest"
        unfolding k_def by (rule dropWhile_eq_drop)
      also have "\<dots> = take (e - a - 1 - k) (drop k (drop (a + 1) hs))"
        by (simp add: rest_def drop_take)
      also have "\<dots> = take (e - m) (drop m hs)"
        by (simp add: m_def add.commute)
      finally show ?thesis .
    qed
    have IH1: "map (header_at hp) (filter (parent_before ?ls (a + 1)) [a + 1..<m])
                 = outline (take (m - (a + 1)) (drop (a + 1) hs))"
    proof (rule less.hyps)
      show "m - (a + 1) < e - a" using m_bounds True by simp
      show "a + 1 \<le> m" using m_bounds by simp
      show "m \<le> ?n" by (rule m_bounds)
      show "m < ?n \<longrightarrow> (\<forall>i. a + 1 \<le> i \<and> i < m \<longrightarrow> ?ls ! m < ?ls ! i)"
      proof (intro impI allI)
        fix i assume "m < ?n" and "a + 1 \<le> i \<and> i < m"
        then have "?ls ! m \<le> ?ls ! a" and "?ls ! a < ?ls ! i"
          using S2 S1 [of i] by simp_all
        then show "?ls ! m < ?ls ! i" by simp
      qed
    qed
    have IH2: "map (header_at hp) (filter (parent_before ?ls m) [m..<e])
                 = outline (take (e - m) (drop m hs))"
    proof (rule less.hyps)
      show "e - m < e - a" using m_bounds True by simp
      show "m \<le> e" by (rule m_bounds)
      show "e \<le> ?n" by (rule less.prems)
      show "e < ?n \<longrightarrow> (\<forall>i. m \<le> i \<and> i < e \<longrightarrow> ?ls ! e < ?ls ! i)"
        using less.prems(3) m_bounds by auto
    qed
    have G1: "parent_before ?ls a a"
      using parent_of_less [of ?ls a] by (auto simp add: parent_before_def split: option.splits)
    have G2: "\<not> parent_before ?ls a j \<and> (parent_of ?ls j = Some a \<longleftrightarrow> parent_before ?ls (a + 1) j)"
      if "a < j" "j < m" for j
    proof -
      from parent_inside [OF that(1) S1 [OF that]]
      obtain p where "parent_of ?ls j = Some p" "a \<le> p" by blast
      then show ?thesis by (auto simp add: parent_before_def)
    qed
    have G3: "parent_before ?ls a j = parent_before ?ls m j \<and> parent_of ?ls j \<noteq> Some a"
      if "m \<le> j" "j < ?n" for j
    proof -
      from that have mn: "m < ?n" by simp
      have no: "parent_of ?ls j \<noteq> Some p" if "a \<le> p" "p < m" for p
        using m_bounds(1) \<open>m \<le> j\<close> S2 [OF mn] that S1
        by (rule parent_not_across)
      show ?thesis
      proof (cases "parent_of ?ls j")
        case None
        then show ?thesis by (simp add: parent_before_def)
      next
        case (Some p)
        with no [of p] have "\<not> (a \<le> p \<and> p < m)" by blast
        with Some m_bounds(1) show ?thesis by (auto simp add: parent_before_def)
      qed
    qed
    have split: "[a..<e] = a # [a + 1..<m] @ [m..<e]"
    proof -
      have "[a..<e] = a # [a + 1..<e]" using True by (simp add: upt_conv_Cons)
      moreover have "[a + 1..<e] = [a + 1..<m] @ [m..<e]"
        using m_bounds by (intro upt_split) simp_all
      ultimately show ?thesis by simp
    qed
    have tops: "filter (parent_before ?ls a) [a..<e] = a # filter (parent_before ?ls m) [m..<e]"
    proof -
      have "filter (parent_before ?ls a) [a + 1..<m] = []"
        using G2 by (auto simp add: filter_empty_conv)
      moreover have "filter (parent_before ?ls a) [m..<e] = filter (parent_before ?ls m) [m..<e]"
        using G3 less.prems(2) by (intro filter_cong) auto
      ultimately show ?thesis using G1 by (simp add: split)
    qed
    have kids: "filter (\<lambda>c. a < c \<and> c < length hp) (children (hp ! a))
                  = filter (parent_before ?ls (a + 1)) [a + 1..<m]"
    proof -
      have "[0..<?n] = [0..<a + 1] @ [a + 1..<?n]"
        using a_n by (intro upt_split) simp_all
      moreover have "[a + 1..<?n] = [a + 1..<m] @ [m..<?n]"
        using m_bounds by (intro upt_split) simp_all
      ultimately have all: "[0..<?n] = [0..<a + 1] @ [a + 1..<m] @ [m..<?n]"
        by simp
      have "filter (\<lambda>j. parent_of ?ls j = Some a) [0..<a + 1] = []"
        using parent_of_less [of ?ls _ a] by (fastforce simp add: filter_empty_conv)
      moreover have "filter (\<lambda>j. parent_of ?ls j = Some a) [m..<?n] = []"
        using G3 by (auto simp add: filter_empty_conv)
      moreover have "filter (\<lambda>j. parent_of ?ls j = Some a) [a + 1..<m]
                       = filter (parent_before ?ls (a + 1)) [a + 1..<m]"
        using G2 by (intro filter_cong) auto
      ultimately have c: "children (hp ! a) = filter (parent_before ?ls (a + 1)) [a + 1..<m]"
        using cell [OF a_n] by (simp only: all filter_append) simp
      have g: "\<forall>c \<in> set (filter (parent_before ?ls (a + 1)) [a + 1..<m]).
                 a < c \<and> c < length hp"
        using m_bounds len by auto
      show ?thesis unfolding c by (rule filter_True) (rule g)
    qed
    have "header_at hp a
            = Header (level (hs ! a)) (title (hs ! a)) (slug (hs ! a))
                (outline (takeWhile P rest))"
    proof -
      have "header_at hp a
              = Header (level (hp ! a)) (title (hp ! a)) (slug (hp ! a))
                  (map (header_at hp) (filter (parent_before ?ls (a + 1)) [a + 1..<m]))"
        by (subst header_at.simps) (simp only: kids)
      then show ?thesis by (simp only: IH1 sub cell [OF a_n])
    qed
    moreover have "outline (hs ! a # rest)
        = Header (level (hs ! a)) (title (hs ! a)) (slug (hs ! a)) (outline (takeWhile P rest))
          # outline (dropWhile P rest)"
      by (simp add: P_def)
    ultimately show ?thesis
      by (simp only: xs tops list.map IH2 oth)
  qed
qed


lemma tree_inv_outline:
  assumes "tree_inv hs st"
  shows "map (header_at (heap st)) (headers st) = outline hs"
proof -
  have roots: "(\<lambda>j. parent_of (map level hs) j = None) = parent_before (map level hs) 0"
    by (rule ext) (simp add: parent_before_def split: option.splits)
  from assms have len: "length (heap st) = length hs"
    and cell: "\<And>k. k < length hs \<Longrightarrow>
        level (heap st ! k) = level (hs ! k) \<and> title (heap st ! k) = title (hs ! k)
        \<and> slug (heap st ! k) = slug (hs ! k)
        \<and> children (heap st ! k)
            = filter (\<lambda>j. parent_of (map level hs) j = Some k) [0..<length hs]"
    and hd: "headers st = filter (\<lambda>j. parent_of (map level hs) j = None) [0..<length hs]"
    by (simp_all add: tree_inv_def)
  from forest_is_outline [OF len cell, of 0 "length hs"]
  show ?thesis by (simp add: hd roots)
qed

lemma run_outline:
  "resolveHeadersFromTokens htmlEscape tokens levels allowHtml escapeText slugify_cb format
     = outline (captured_headers htmlEscape tokens levels allowHtml escapeText slugify_cb format)"
  using tree_inv_outline [OF run_tree_inv, of htmlEscape tokens levels allowHtml escapeText
      slugify_cb format]
  by (simp add: resolveHeadersFromTokens_def Let_def forget_calls_def)

lemma map_takeWhile_dropWhile: "map f (takeWhile P xs) @ map f (dropWhile P xs) = map f xs"
  by (simp flip: map_append)

lemma outline_preorder:
  "map header_level (concat (map flatten (outline hs))) = map level hs
   \<and> map header_title (concat (map flatten (outline hs))) = map title hs
   \<and> map header_slug (concat (map flatten (outline hs))) = map slug hs"
proof (induction hs rule: outline.induct)
  case 1
  show ?case by simp
next
  case (2 h hs)
  let ?P = "\<lambda>x. level h < level x"
  from 2 show ?case by (simp add: map_takeWhile_dropWhile)
qed

text \<open>
  C1. \<^verbatim>\<open>push\<close> drops from the front of the stack every entry whose level is at least
  that of the new header; with the stack then empty the header goes to the end of
  \<^verbatim>\<open>headers\<close> and is the one stack entry, and otherwise it goes to the end of the
  \<^verbatim>\<open>children\<close> of the front entry and to the front of the stack. The loop does this
  with each captured header in document order. So in the end there is one object for
  each captured header and no other; the children of a header are the headers whose
  nearest shallower predecessor it is, whatever levels lie between, and the top-level
  headers are those with no shallower predecessor; both are in document order. The
  returned forest is the outline of the captured headers, and listing it with every
  header before its children gives the captured headers in document order.
\<close>

theorem headers_nest_under_nearest_shallower:
  "push h b =
     (let stack1 = dropWhile (\<lambda>a. level h \<le> level (heap b ! a)) (stack b);
          new = length (heap b)
      in if stack1 = []
         then b\<lparr>heap := heap b @ [h], headers := headers b @ [new], stack := [new]\<rparr>
         else b\<lparr>heap := (heap b)
                           [hd stack1 := (heap b ! hd stack1)
                              \<lparr>children := children (heap b ! hd stack1) @ [new]\<rparr>]
                         @ [h],
                 stack := new # stack1\<rparr>)
   \<and> (let st = run htmlEscape tokens levels allowHtml escapeText slugify_cb format;
           hs = captured_headers htmlEscape tokens levels allowHtml escapeText slugify_cb format;
           ls = map level hs;
           n = length hs
       in heap st = heap (pushes hs) \<and> headers st = headers (pushes hs)
          \<and> stack st = stack (pushes hs)
          \<and> length (heap st) = n
          \<and> (\<forall>k < n. level (heap st ! k) = level (hs ! k)
                \<and> title (heap st ! k) = title (hs ! k)
                \<and> slug (heap st ! k) = slug (hs ! k)
                \<and> children (heap st ! k) = filter (\<lambda>j. parent_of ls j = Some k) [0..<n]
                \<and> sorted_wrt (<) (children (heap st ! k)))
          \<and> headers st = filter (\<lambda>j. parent_of ls j = None) [0..<n]
          \<and> sorted_wrt (<) (headers st)
          \<and> resolveHeadersFromTokens htmlEscape tokens levels allowHtml escapeText slugify_cb
                format = outline hs
          \<and> map header_level (concat (map flatten (outline hs))) = map level hs
          \<and> map header_title (concat (map flatten (outline hs))) = map title hs
          \<and> map header_slug (concat (map flatten (outline hs))) = map slug hs)"
proof -
  let ?st = "run htmlEscape tokens levels allowHtml escapeText slugify_cb format"
  let ?hs = "captured_headers htmlEscape tokens levels allowHtml escapeText slugify_cb format"
  have inv: "tree_inv ?hs (forget_calls ?st)" by (rule run_tree_inv)
  have "forget_calls ?st = pushes ?hs" by (rule run_pushes)
  then have "heap (forget_calls ?st) = heap (pushes ?hs)"
    and "headers (forget_calls ?st) = headers (pushes ?hs)"
    and "stack (forget_calls ?st) = stack (pushes ?hs)"
    by simp_all
  then have same: "heap ?st = heap (pushes ?hs)" "headers ?st = headers (pushes ?hs)"
    "stack ?st = stack (pushes ?hs)"
    by (simp_all add: forget_calls_def)
  have sorted: "sorted_wrt (<) (filter P [0..<n])" for P :: "nat \<Rightarrow> bool" and n
    by (rule sorted_wrt_filter) simp
  from inv have "length (heap ?st) = length ?hs"
    and "\<forall>k < length ?hs. level (heap ?st ! k) = level (?hs ! k)
                \<and> title (heap ?st ! k) = title (?hs ! k)
                \<and> slug (heap ?st ! k) = slug (?hs ! k)
                \<and> children (heap ?st ! k)
                    = filter (\<lambda>j. parent_of (map level ?hs) j = Some k) [0..<length ?hs]
                \<and> sorted_wrt (<) (children (heap ?st ! k))"
    and "headers ?st = filter (\<lambda>j. parent_of (map level ?hs) j = None) [0..<length ?hs]"
    and "sorted_wrt (<) (headers ?st)"
    by (simp_all add: tree_inv_def forget_calls_def sorted)
  with same show ?thesis
    unfolding Let_def
    by (intro conjI push_as_specified [unfolded Let_def] run_outline
        outline_preorder [THEN conjunct1] outline_preorder [THEN conjunct2, THEN conjunct1]
        outline_preorder [THEN conjunct2, THEN conjunct2])
qed


text \<open>
  The two sibling level-2 headings are the children of the level-1 heading, in order. In
  the second document the level-4 heading B is a direct child of the level-2 heading A,
  next to C; D is a second top-level header.
\<close>

theorem headers_nest_under_nearest_shallower_witness:
  "resolveHeadersFromTokens htmlEscape_spec doc_siblings [1, 2, 3, 4] False True slug_latin1 None
     = [Header 1 (ustr ''A'') (ustr ''a'')
          [Header 2 (ustr ''B'') (ustr ''b'') [], Header 2 (ustr ''C'') (ustr ''c'') []]]
   \<and> resolveHeadersFromTokens htmlEscape_spec doc_skipped [1, 2, 3, 4] False True slug_latin1 None
     = [Header 2 (ustr ''A'') (ustr ''a'')
          [Header 4 (ustr ''B'') (ustr ''b'') [], Header 3 (ustr ''C'') (ustr ''c'') []],
        Header 1 (ustr ''D'') (ustr ''d'') []]
   \<and> map level (captured_headers htmlEscape_spec doc_skipped [1, 2, 3, 4] False True slug_latin1 None)
     = [2, 4, 3, 1]
   \<and> map (parent_of [2, 4, 3, 1]) [0, 1, 2, 3] = [None, Some 0, Some 0, None]
   \<and> length (heap (run htmlEscape_spec doc_skipped [1, 2, 3, 4] False True slug_latin1 None)) = 4
   \<and> children (heap (run htmlEscape_spec doc_skipped [1, 2, 3, 4] False True slug_latin1 None) ! 0)
     = [1, 2]
   \<and> headers (run htmlEscape_spec doc_skipped [1, 2, 3, 4] False True slug_latin1 None) = [0, 3]"
proof -
  let ?hs = "captured_headers htmlEscape_spec doc_skipped [1, 2, 3, 4] False True slug_latin1 None"
  let ?st = "run htmlEscape_spec doc_skipped [1, 2, 3, 4] False True slug_latin1 None"
  have hs: "?hs = [\<lparr>level = 2, title = ustr ''A'', slug = ustr ''a'', children = []\<rparr>,
                   \<lparr>level = 4, title = ustr ''B'', slug = ustr ''b'', children = []\<rparr>,
                   \<lparr>level = 3, title = ustr ''C'', slug = ustr ''c'', children = []\<rparr>,
                   \<lparr>level = 1, title = ustr ''D'', slug = ustr ''d'', children = []\<rparr>]"
    by (simp add: captured_headers_def captured_def doc_skipped_def tokens_eval slugify_eval
        upt_rec)
  have len: "length ?hs = 4" and ls: "map level ?hs = [2, 4, 3, 1]"
    by (simp_all add: hs)
  have p: "parent_of [2, 4, 3, 1] 0 = None" "parent_of [2, 4, 3, 1] (Suc 0) = Some 0"
    "parent_of [2, 4, 3, 1] 2 = Some 0" "parent_of [2, 4, 3, 1] 3 = None"
    by (simp_all add: parent_of_def upt_rec)
  have up: "[0..<4] = [0, 1, 2, 3::nat]"
    by (simp add: upt_rec)
  note t = headers_nest_under_nearest_shallower
      [of _ _ htmlEscape_spec doc_skipped "[1, 2, 3, 4]" False True slug_latin1 None,
        THEN conjunct2, unfolded Let_def len ls]
  from t have kids: "\<forall>k < 4. level (heap ?st ! k) = level (?hs ! k)
                \<and> title (heap ?st ! k) = title (?hs ! k)
                \<and> slug (heap ?st ! k) = slug (?hs ! k)
                \<and> children (heap ?st ! k)
                    = filter (\<lambda>j. parent_of [2, 4, 3, 1] j = Some k) [0..<4]
                \<and> sorted_wrt (<) (children (heap ?st ! k))"
    and roots: "headers ?st = filter (\<lambda>j. parent_of [2, 4, 3, 1] j = None) [0..<4]"
    and size: "length (heap ?st) = 4"
    by blast+
  from kids [rule_format, of 0]
  have "children (heap ?st ! 0) = filter (\<lambda>j. parent_of [2, 4, 3, 1] j = Some 0) [0..<4]"
    by simp
  then have "children (heap ?st ! 0) = [1, 2]"
    by (simp add: up p)
  moreover from roots have "headers ?st = [0, 3]"
    by (simp add: up p)
  moreover note size
  moreover have "resolveHeadersFromTokens htmlEscape_spec doc_siblings [1, 2, 3, 4] False True
       slug_latin1 None
     = [Header 1 (ustr ''A'') (ustr ''a'')
          [Header 2 (ustr ''B'') (ustr ''b'') [], Header 2 (ustr ''C'') (ustr ''c'') []]]"
    by (simp add: doc_siblings_def tokens_eval slugify_eval upt_rec)
  moreover have "resolveHeadersFromTokens htmlEscape_spec doc_skipped [1, 2, 3, 4] False True
       slug_latin1 None
     = [Header 2 (ustr ''A'') (ustr ''a'')
          [Header 4 (ustr ''B'') (ustr ''b'') [], Header 3 (ustr ''C'') (ustr ''c'') []],
        Header 1 (ustr ''D'') (ustr ''d'') []]"
    by (simp add: doc_skipped_def tokens_eval slugify_eval upt_rec)
  ultimately show ?thesis by (simp add: p ls)
qed

section \<open>Properties of preventViteConstantsReplacement\<close>

lemma rEscaped_syntax: "rEscaped c \<longleftrightarrow> SyntaxCharacter c \<or> c = 0x2F \<or> c = 0x2D"
  by (auto simp add: rEscaped_def SyntaxCharacter_def ustr_def)

lemma rEscaped_backslash: "rEscaped 0x5C" and rEscaped_bar: "rEscaped 0x7C"
  by (simp_all add: rEscaped_def ustr_def)

lemma parse_escaped_key:
  assumes "rest \<noteq> []"
  shows "parse_alternatives cur (escape_key k @ rest) = parse_alternatives (cur @ k) rest"
  using assms
proof (induction k arbitrary: cur)
  case Nil
  then show ?case by (simp add: escape_key_def)
next
  case (Cons c k)
  show ?case
  proof (cases "rEscaped c")
    case True
    then have "SyntaxCharacter c \<or> c = 0x2F \<or> c = 0x2D"
      by (simp add: rEscaped_syntax)
    with True Cons.IH [OF Cons.prems, of "cur @ [c]"] show ?thesis
      by (simp add: escape_key_def)
  next
    case False
    then have c: "c \<noteq> 0x5C" "c \<noteq> 0x7C" "\<not> SyntaxCharacter c"
      using rEscaped_backslash rEscaped_bar by (auto simp add: rEscaped_syntax)
    from Cons.prems obtain d ds where d: "escape_key k @ rest = d # ds"
      by (cases "escape_key k @ rest") simp_all
    have "parse_alternatives cur (c # d # ds) = parse_alternatives (cur @ [c]) (d # ds)"
      using c by simp
    with False d Cons.IH [OF Cons.prems, of "cur @ [c]"] show ?thesis
      by (simp add: escape_key_def)
  qed
qed

lemma parse_joined_keys:
  assumes "keys \<noteq> []"
  shows "parse_alternatives cur (join [0x7C] (map escape_key keys) @ [0x29])
           = Some ((cur @ hd keys) # tl keys)"
  using assms
proof (induction keys arbitrary: cur)
  case Nil
  then show ?case by simp
next
  case (Cons k ks)
  show ?case
  proof (cases ks)
    case Nil
    then show ?thesis
      using parse_escaped_key [of "[0x29]" cur k] by simp
  next
    case (Cons k2 ks2)
    obtain d ds where d: "join [0x7C] (map escape_key (k2 # ks2)) @ [0x29] = d # ds"
      by (cases "join [0x7C] (map escape_key (k2 # ks2)) @ [0x29]") simp_all
    have "join [0x7C] (map escape_key (k # ks)) @ [0x29]
            = escape_key k @ 0x7C # (join [0x7C] (map escape_key (k2 # ks2)) @ [0x29])"
      by (simp add: Cons)
    then have "parse_alternatives cur (join [0x7C] (map escape_key (k # ks)) @ [0x29])
        = parse_alternatives cur (escape_key k @ 0x7C # d # ds)"
      by (simp only: d)
    also have "\<dots> = parse_alternatives (cur @ k) (0x7C # d # ds)"
      by (rule parse_escaped_key) simp
    also have "\<dots> = map_option ((#) (cur @ k)) (parse_alternatives [] (d # ds))"
      by simp
    also have "parse_alternatives [] (d # ds) = Some (([] @ hd ks) # tl ks)"
      using Cons.IH [of "[]"] unfolding Cons d by simp
    finally show ?thesis by (simp add: Cons)
  qed
qed

lemma RegExp_of_keys:
  "RegExp ([0x5C, 0x62, 0x28] @ join [0x7C] (map escape_key keys) @ [0x29])
     = Inr (if keys = [] then [[]] else keys)"
proof (cases keys)
  case Nil
  then show ?thesis by (simp add: RegExp_def)
next
  case (Cons k ks)
  then show ?thesis
    using parse_joined_keys [of keys "[]"] by (simp add: RegExp_def)
qed



lemma replace_empty_match:
  "replace_matches [[]] r before s = insert_at_boundaries (r []) before s"
  by (induction s arbitrary: before) simp_all












lemma guard_result:
  "preventViteConstantsReplacement source reserved =
     Inr (case reserved of
            None \<Rightarrow> guard_process_env (guard_import_meta source)
          | Some keys \<Rightarrow>
              replace_matches (if keys = [] then [[]] else keys) break_after_first None
                (guard_process_env (guard_import_meta source)))"
  unfolding preventViteConstantsReplacement_def Let_def RegExp_of_keys
  by (cases reserved) simp_all








text \<open>The definitions that evaluate the function on a string.\<close>

lemmas guard_eval =
  preventViteConstantsReplacement_def guard_import_meta_def guard_process_env_def RegExp_def
  escape_key_def rEscaped_def SyntaxCharacter_def word_boundary_def isWordChar_def isDigit_def
  break_after_first_def ustr_def Let_def





text \<open>
  C9. With a mapping that has no key the pattern is \<^verbatim>\<open>\b()\<close>, whose one alternative
  is empty and matches everywhere; the function then inserts the text
  \<^verbatim>\<open>undefined<wbr/>\<close> at every word boundary of the text that the first two
  replacements give. For the source \<^verbatim>\<open>a\<close> the result is
  \<^verbatim>\<open>undefined<wbr/>aundefined<wbr/>\<close>, which is not the source with markers inserted.
\<close>

theorem empty_mapping_inserts_undefined:
  "RegExp ([0x5C, 0x62, 0x28] @ join [0x7C] (map escape_key []) @ [0x29]) = Inr [[]]
   \<and> first_match [[]] s = Some []
   \<and> preventViteConstantsReplacement source (Some [])
       = Inr (insert_at_boundaries (ustr ''undefined<wbr/>'') None
                (guard_process_env (guard_import_meta source)))
   \<and> preventViteConstantsReplacement (ustr ''a'') (Some [])
       = Inr (ustr ''undefined<wbr/>aundefined<wbr/>'')
   \<and> \<not> only_markers_inserted (ustr ''a'') (ustr ''undefined<wbr/>aundefined<wbr/>'')"
proof (intro conjI)
  show "RegExp ([0x5C, 0x62, 0x28] @ join [0x7C] (map escape_key []) @ [0x29]) = Inr [[]]"
    using RegExp_of_keys [of "[]"] by simp
  show "first_match [[]] s = Some []" by simp
  have "break_after_first [] = ustr ''undefined<wbr/>''"
    by (simp add: break_after_first_def ustr_def)
  then show "preventViteConstantsReplacement source (Some [])
       = Inr (insert_at_boundaries (ustr ''undefined<wbr/>'') None
                (guard_process_env (guard_import_meta source)))"
    by (simp add: guard_result replace_empty_match)
  show "preventViteConstantsReplacement (ustr ''a'') (Some [])
       = Inr (ustr ''undefined<wbr/>aundefined<wbr/>'')"
    by (simp add: guard_eval)
  show "\<not> only_markers_inserted (ustr ''a'') (ustr ''undefined<wbr/>aundefined<wbr/>'')"
    by (simp add: ustr_def)
qed

text \<open>The same for the source \<^verbatim>\<open>x = 1\<close>, with four word boundaries.\<close>

theorem empty_mapping_inserts_undefined_witness:
  "first_match [[]] (ustr ''x = 1'') = Some []
   \<and> guard_process_env (guard_import_meta (ustr ''x = 1'')) = ustr ''x = 1''
   \<and> preventViteConstantsReplacement (ustr ''x = 1'') (Some [])
       = Inr (ustr ''undefined<wbr/>xundefined<wbr/> = undefined<wbr/>1undefined<wbr/>'')"
proof -
  have s2: "guard_process_env (guard_import_meta (ustr ''x = 1'')) = ustr ''x = 1''"
    by (simp add: guard_eval)
  have "insert_at_boundaries (ustr ''undefined<wbr/>'') None (ustr ''x = 1'')
      = ustr ''undefined<wbr/>xundefined<wbr/> = undefined<wbr/>1undefined<wbr/>''"
    by (simp add: guard_eval)
  with empty_mapping_inserts_undefined [of "ustr ''x = 1''" "ustr ''x = 1''"] s2
  show ?thesis by simp
qed

end
